theory Spec2Isabelle
  imports Complex_Main "HOL-Library.Word" "HOL-Library.Multiset" "HOL-Library.AList"
begin

section \<open>Strings and errors\<close>

text \<open>
  A JavaScript string is a sequence of 16-bit code units and \<open>.length\<close> counts them.
  An exception (a rejected promise, a throw) is a value \<open>Inl e\<close> of a sum type.
\<close>

type_synonym js_string = "16 word list"

definition js_str :: "string \<Rightarrow> js_string" where
  "js_str s = map (\<lambda>c. of_nat (of_char c)) s"

datatype error = Error js_string

definition newline :: "16 word" where
  "newline = 10"

section \<open>src/utils.js: splitMessage\<close>

text \<open>\<open>message.split('\n')\<close>: the pieces between separators; a string with \<open>n\<close>
  separators has \<open>n + 1\<close> pieces, and the empty string has the one piece \<open>""\<close>.\<close>

fun js_split :: "'a \<Rightarrow> 'a list \<Rightarrow> 'a list list" where
  "js_split sep [] = [[]]"
| "js_split sep (c # cs) =
     (if c = sep then [] # js_split sep cs
      else (case js_split sep cs of
              [] \<Rightarrow> [[c]]
            | l # ls \<Rightarrow> (c # l) # ls))"

text \<open>The body of the \<open>for (const line of lines)\<close> loop, on the pair
  \<open>(chunks, currentChunk)\<close>.\<close>

definition split_step :: "nat \<Rightarrow> js_string \<Rightarrow> js_string list \<times> js_string \<Rightarrow> js_string list \<times> js_string" where
  "split_step maxLength line st =
     (let (chunks, currentChunk) = st;
          (chunks1, currentChunk1) =
             (if length currentChunk + length line + 1 > maxLength
              then (chunks @ [currentChunk], [])
              else (chunks, currentChunk))
      in (chunks1, currentChunk1 @ line @ [newline]))"

definition splitMessage :: "js_string \<Rightarrow> nat \<Rightarrow> js_string list" where
  "splitMessage message maxLength =
     (if message = [] then []
      else (let lines = js_split newline message;
                (chunks, currentChunk) = fold (split_step maxLength) lines ([], [])
            in if currentChunk \<noteq> [] then chunks @ [currentChunk] else chunks))"

section \<open>src/services.js: stored data\<close>

text \<open>
  A Telegram user id is a number. A stored phrase and a feedback document carry the
  fields \<open>getReviewItems\<close> reads; a numeric field that may be missing is an
  \<open>int option\<close> (\<open>None\<close> for \<open>undefined\<close>), \<open>phrases\<close> is \<open>None\<close> when the field is
  missing or not an array, and \<open>categories\<close> is \<open>None\<close> when missing.
\<close>

type_synonym userId = nat

record phrase =
  p_original :: js_string
  p_improved :: js_string
  p_type :: js_string
  p_importance :: "int option"
  p_repetitions :: "int option"

record feedback_doc =
  d_id :: js_string
  d_phrases :: "phrase list option"
  d_importance :: "int option"
  d_timestamp :: int
  d_categories :: "js_string list option"

text \<open>An entry of the \<open>challenges\<close> collection, written by \<open>logChallengeSent\<close>.\<close>

datatype challenge_type = Review | Practice

record challenge_doc =
  c_type :: challenge_type
  c_timestamp :: int
  c_week :: int

text \<open>The two collections of one Firestore database, per user. \<open>feedback_items\<close> lists
  a user's documents in the order of the query \<open>orderBy('timestamp', 'desc')\<close>.\<close>

record firestore =
  feedback_items :: "userId \<Rightarrow> feedback_doc list"
  challenges :: "userId \<Rightarrow> challenge_doc list"

text \<open>The element \<open>getReviewItems\<close> pushes onto \<open>reviewItems\<close>. \<open>category\<close> is \<open>None\<close>
  when \<open>data.categories[0]\<close> is \<open>undefined\<close> (an empty array).\<close>

record review_item =
  item_id :: js_string
  phraseId :: js_string
  original :: js_string
  improved :: js_string
  item_type :: js_string
  importance :: int
  repetitions :: int
  timestamp :: int
  category :: "js_string option"

text \<open>What the code's surroundings do in one run: whether a Firestore read or write
  fails, what \<open>generatePractice\<close> returns, whether the \<open>k\<close>-th call of
  \<open>bot.telegram.sendMessage\<close> fails, the server's timestamp and the value of
  \<open>getCurrentWeek()\<close>.\<close>

record env =
  feedback_read_error :: "error option"
  challenges_read_error :: "error option"
  challenges_write_error :: "error option"
  practice_result :: "error + js_string"
  send_error :: "nat \<Rightarrow> error option"
  serverTimestamp :: int
  currentWeek :: int

text \<open>\<open>Math.random()\<close>: the \<open>n\<close>-th call returns \<open>rnd n\<close>, a number in \<open>[0, 1)\<close>.\<close>

type_synonym random_source = "nat \<Rightarrow> real"

definition in_unit_interval :: "random_source \<Rightarrow> bool" where
  "in_unit_interval rnd = (\<forall>n. 0 \<le> rnd n \<and> rnd n < 1)"

section \<open>src/services.js: getReviewItems\<close>

text \<open>\<open>a || b\<close> on a number that may be missing: \<open>undefined\<close> and \<open>0\<close> are falsy.\<close>

definition js_or :: "int option \<Rightarrow> int \<Rightarrow> int" where
  "js_or a b = (case a of None \<Rightarrow> b | Some n \<Rightarrow> if n \<noteq> 0 then n else b)"

definition phraseKey :: "phrase \<Rightarrow> js_string" where
  "phraseKey p = p_original p @ js_str ''-'' @ p_improved p"

definition mk_item :: "feedback_doc \<Rightarrow> phrase \<Rightarrow> review_item" where
  "mk_item d p =
     \<lparr> item_id = d_id d,
       phraseId = phraseKey p,
       original = p_original p,
       improved = p_improved p,
       item_type = p_type p,
       importance = js_or (p_importance p) (js_or (d_importance d) 3),
       repetitions = js_or (p_repetitions p) 0,
       timestamp = d_timestamp d,
       category = (case d_categories d of
                     None \<Rightarrow> Some (js_str ''general'')
                   | Some [] \<Rightarrow> None
                   | Some (c # cs) \<Rightarrow> Some c) \<rparr>"

text \<open>The inner \<open>forEach\<close> over a document's phrases, on
  \<open>(processedPhrases, reviewItems)\<close>; the set \<open>processedPhrases\<close> is the list of its
  elements in insertion order.\<close>

definition add_phrase ::
  "feedback_doc \<Rightarrow> phrase \<Rightarrow> js_string list \<times> review_item list \<Rightarrow> js_string list \<times> review_item list" where
  "add_phrase d p st =
     (let (processedPhrases, reviewItems) = st
      in if phraseKey p \<notin> set processedPhrases
         then (processedPhrases @ [phraseKey p], reviewItems @ [mk_item d p])
         else (processedPhrases, reviewItems))"

definition add_doc ::
  "feedback_doc \<Rightarrow> js_string list \<times> review_item list \<Rightarrow> js_string list \<times> review_item list" where
  "add_doc d st = (case d_phrases d of None \<Rightarrow> st | Some ps \<Rightarrow> fold (add_phrase d) ps st)"

definition collect_items :: "feedback_doc list \<Rightarrow> review_item list" where
  "collect_items docs = snd (fold add_doc docs ([], []))"

text \<open>Every (document, phrase) occurrence, in the order the two nested \<open>forEach\<close>
  loops visit them.\<close>

definition doc_pairs :: "feedback_doc list \<Rightarrow> (feedback_doc \<times> phrase) list" where
  "doc_pairs docs =
     concat (map (\<lambda>d. case d_phrases d of None \<Rightarrow> [] | Some ps \<Rightarrow> map (Pair d) ps) docs)"

text \<open>
  \<open>Array.prototype.sort\<close> with a comparator is stable. For a comparator that orders by
  numeric keys, as all three here do, the stable sorted arrangement is unique, and
  insertion from the right computes it: an element goes before the first one that does
  not compare below it.
\<close>

fun insert_by :: "('a \<Rightarrow> 'a \<Rightarrow> int) \<Rightarrow> 'a \<Rightarrow> 'a list \<Rightarrow> 'a list" where
  "insert_by cmp x [] = [x]"
| "insert_by cmp x (y # ys) = (if cmp x y \<le> 0 then x # y # ys else y # insert_by cmp x ys)"

definition js_sort :: "('a \<Rightarrow> 'a \<Rightarrow> int) \<Rightarrow> 'a list \<Rightarrow> 'a list" where
  "js_sort cmp xs = foldr (insert_by cmp) xs []"

definition cmp_importance :: "review_item \<Rightarrow> review_item \<Rightarrow> int" where
  "cmp_importance a b =
     (if importance a \<noteq> importance b then importance b - importance a
      else repetitions a - repetitions b)"

definition cmp_repetitions :: "review_item \<Rightarrow> review_item \<Rightarrow> int" where
  "cmp_repetitions a b = repetitions a - repetitions b"

definition cmp_desc :: "int \<Rightarrow> int \<Rightarrow> int" where
  "cmp_desc a b = b - a"

text \<open>
  \<open>groupedByImportance\<close> is an object keyed by importance: an association list in
  insertion order. \<open>group_push\<close> is the body of the grouping \<open>forEach\<close>.
\<close>

type_synonym groups = "(int \<times> review_item list) list"

definition group_push :: "review_item \<Rightarrow> groups \<Rightarrow> groups" where
  "group_push item g =
     (case map_of g (importance item) of
        None \<Rightarrow> g @ [(importance item, [item])]
      | Some grp \<Rightarrow> AList.update (importance item) (grp @ [item]) g)"

text \<open>\<open>Object.keys\<close>: the keys that are array indices in ascending order, then the
  other keys in insertion order.\<close>

definition is_array_index :: "int \<Rightarrow> bool" where
  "is_array_index k = (0 \<le> k \<and> k < 2 ^ 32 - 1)"

definition object_keys :: "groups \<Rightarrow> int list" where
  "object_keys g =
     sort (filter is_array_index (map fst g)) @ filter (\<lambda>k. \<not> is_array_index k) (map fst g)"

text \<open>\<open>[a[i], a[j]] = [a[j], a[i]]\<close>\<close>

definition swap :: "nat \<Rightarrow> nat \<Rightarrow> 'a list \<Rightarrow> 'a list" where
  "swap i j xs = (xs[i := xs ! j])[j := xs ! i]"

text \<open>The Fisher-Yates loop \<open>for (let i = length - 1; i > 0; i--)\<close>, from \<open>i\<close> down; it
  returns the number of calls of \<open>Math.random()\<close> made so far and the array.\<close>

fun fisher_yates :: "random_source \<Rightarrow> nat \<Rightarrow> nat \<Rightarrow> 'a list \<Rightarrow> nat \<times> 'a list" where
  "fisher_yates rnd n 0 xs = (n, xs)"
| "fisher_yates rnd n (Suc i) xs =
     (let j = nat \<lfloor>rnd n * real (Suc i + 1)\<rfloor>
      in fisher_yates rnd (Suc n) i (swap (Suc i) j xs))"

text \<open>The body of the \<open>forEach\<close> over \<open>Object.keys(groupedByImportance)\<close>.
  \<open>Math.random() < 0.3\<close> is evaluated before the length test.\<close>

definition shuffle_group :: "random_source \<Rightarrow> int \<Rightarrow> nat \<times> groups \<Rightarrow> nat \<times> groups" where
  "shuffle_group rnd k st =
     (let (n, g) = st
      in case map_of g k of
           None \<Rightarrow> (n, g)
         | Some grp \<Rightarrow>
             (let byRepetitions = js_sort cmp_repetitions grp;
                  (n', shuffled) =
                    (if rnd n < 3 / 10 \<and> length byRepetitions > 1
                     then fisher_yates rnd (Suc n) (length byRepetitions - 1) byRepetitions
                     else (Suc n, byRepetitions))
              in (n', AList.update k shuffled g)))"

definition group_of :: "groups \<Rightarrow> int \<Rightarrow> review_item list" where
  "group_of g k = (case map_of g k of None \<Rightarrow> [] | Some grp \<Rightarrow> grp)"

text \<open>The array \<open>randomizedItems\<close> that \<open>getReviewItems\<close> builds from the fetched
  documents, and the slice it returns.\<close>

definition randomizedItems :: "random_source \<Rightarrow> feedback_doc list \<Rightarrow> review_item list" where
  "randomizedItems rnd docs =
     (let reviewItems = js_sort cmp_importance (collect_items docs);
          groupedByImportance = fold group_push reviewItems [];
          shuffled = snd (fold (shuffle_group rnd) (object_keys groupedByImportance)
                            (0, groupedByImportance));
          importanceLevels = js_sort cmp_desc (object_keys shuffled)
      in concat (map (group_of shuffled) importanceLevels))"

definition select_items :: "random_source \<Rightarrow> feedback_doc list \<Rightarrow> nat \<Rightarrow> review_item list" where
  "select_items rnd docs limit = take limit (randomizedItems rnd docs)"

text \<open>The query \<open>orderBy('timestamp', 'desc').limit(50).get()\<close>.\<close>

definition feedback_query :: "env \<Rightarrow> firestore \<Rightarrow> userId \<Rightarrow> error + feedback_doc list" where
  "feedback_query e db userId =
     (case feedback_read_error e of
        Some err \<Rightarrow> Inl err
      | None \<Rightarrow> Inr (take 50 (feedback_items db userId)))"

text \<open>\<open>limit\<close> is a count: 3 by default, 2 and 3 at the call sites. The result is
  \<open>Inr\<close> of the returned array; \<open>Inl\<close> would be an exception reaching the caller.\<close>

definition getReviewItems ::
  "env \<Rightarrow> random_source \<Rightarrow> firestore \<Rightarrow> userId \<Rightarrow> nat \<Rightarrow> error + review_item list" where
  "getReviewItems e rnd db userId limit =
     (case feedback_query e db userId of
        Inl err \<Rightarrow> Inr []
      | Inr docs \<Rightarrow> if docs = [] then Inr [] else Inr (select_items rnd docs limit))"

section \<open>src/services.js: the challenge dispatcher\<close>

text \<open>An outbound message, by the template that rendered it.\<close>

datatype message =
  ReviewChallenge "review_item list"
| PracticeChallenge js_string
| FallbackChallenge

text \<open>The state the dispatcher changes: the database, the messages delivered, and the
  number of calls of \<open>sendMessage\<close> made.\<close>

record world =
  store :: firestore
  sent :: "(userId \<times> message) list"
  send_calls :: nat

definition sendMessage :: "env \<Rightarrow> userId \<Rightarrow> message \<Rightarrow> world \<Rightarrow> (error + unit) \<times> world" where
  "sendMessage e userId m w =
     (case send_error e (send_calls w) of
        Some err \<Rightarrow> (Inl err, w\<lparr>send_calls := Suc (send_calls w)\<rparr>)
      | None \<Rightarrow> (Inr (), w\<lparr>sent := sent w @ [(userId, m)], send_calls := Suc (send_calls w)\<rparr>))"

definition sendPracticeChallenge :: "env \<Rightarrow> userId \<Rightarrow> world \<Rightarrow> (error + unit) \<times> world" where
  "sendPracticeChallenge e userId w =
     (case practice_result e of
        Inl err \<Rightarrow> sendMessage e userId FallbackChallenge w
      | Inr practiceExercise \<Rightarrow>
          (case sendMessage e userId (PracticeChallenge practiceExercise) w of
             (Inr u, w1) \<Rightarrow> (Inr u, w1)
           | (Inl err, w1) \<Rightarrow> sendMessage e userId FallbackChallenge w1))"

definition logChallengeSent :: "env \<Rightarrow> userId \<Rightarrow> challenge_type \<Rightarrow> world \<Rightarrow> (error + unit) \<times> world" where
  "logChallengeSent e userId challengeType w =
     (case challenges_write_error e of
        Some err \<Rightarrow> (Inr (), w)
      | None \<Rightarrow>
          (Inr (),
           w\<lparr>store := (store w)\<lparr>challenges := (challenges (store w))
                 (userId := challenges (store w) userId @
                    [\<lparr>c_type = challengeType, c_timestamp = serverTimestamp e,
                      c_week = currentWeek e\<rparr>])\<rparr>\<rparr>))"

definition sendAutomatedChallenge ::
  "env \<Rightarrow> random_source \<Rightarrow> userId \<Rightarrow> world \<Rightarrow> (error + unit) \<times> world" where
  "sendAutomatedChallenge e rnd userId w =
     (let isReview = (rnd 0 < 1 / 2);
          attempt =
            (if isReview
             then (case getReviewItems e (\<lambda>n. rnd (Suc n)) (store w) userId 2 of
                     Inl err \<Rightarrow> (Inl err, w)
                   | Inr reviewItems \<Rightarrow>
                       if length reviewItems > 0
                       then sendMessage e userId (ReviewChallenge reviewItems) w
                       else sendPracticeChallenge e userId w)
             else sendPracticeChallenge e userId w)
      in case attempt of
           (Inl err, w1) \<Rightarrow> (Inr (), w1)
         | (Inr u, w1) \<Rightarrow> logChallengeSent e userId (if isReview then Review else Practice) w1)"

section \<open>src/services.js: shouldSendChallenge\<close>

text \<open>The query \<open>where('week', '==', currentWeek).get()\<close>.\<close>

definition challenges_query :: "env \<Rightarrow> firestore \<Rightarrow> userId \<Rightarrow> int \<Rightarrow> error + challenge_doc list" where
  "challenges_query e db userId week =
     (case challenges_read_error e of
        Some err \<Rightarrow> Inl err
      | None \<Rightarrow> Inr (filter (\<lambda>c. c_week c = week) (challenges db userId)))"

definition shouldSendChallenge :: "env \<Rightarrow> firestore \<Rightarrow> userId \<Rightarrow> error + bool" where
  "shouldSendChallenge e db userId =
     (case challenges_query e db userId (currentWeek e) of
        Inl err \<Rightarrow> Inr True
      | Inr snapshot \<Rightarrow> Inr (length snapshot < 4))"

section \<open>Invariants of getReviewItems\<close>

text \<open>After the collecting loops have visited \<open>pairs\<close>: the processed keys are the keys
  of the collected items, they are the keys seen, no key occurs twice, and every item
  was made from the first occurrence of its key.\<close>

definition collected :: "(feedback_doc \<times> phrase) list \<Rightarrow> js_string list \<times> review_item list \<Rightarrow> bool" where
  "collected pairs st =
     (fst st = map phraseId (snd st) \<and>
      set (fst st) = (\<lambda>(d, p). phraseKey p) ` set pairs \<and>
      distinct (fst st) \<and>
      (\<forall>c \<in> set (snd st). \<exists>d p.
          find (\<lambda>(d', p'). phraseKey p' = phraseId c) pairs = Some (d, p) \<and> c = mk_item d p))"

text \<open>The groups have distinct keys and each holds items of its key's importance.\<close>

definition groups_ok :: "groups \<Rightarrow> bool" where
  "groups_ok g = (distinct (map fst g) \<and> (\<forall>(k, grp) \<in> set g. \<forall>x \<in> set grp. importance x = k))"

definition items_of :: "groups \<Rightarrow> review_item list" where
  "items_of g = concat (map snd g)"

section \<open>src/scheduler.js: ChallengeScheduler\<close>

text \<open>
  The scheduler's fields and the part of the JavaScript runtime it drives.
  \<open>activeUsers\<close> is a \<open>Set\<close> and \<open>scheduledChallenges\<close> a \<open>Map\<close> from user to timeout
  id, both in insertion order. \<open>timers\<close> are the runtime's pending timeouts: the id
  \<open>setTimeout\<close> returned, the delay in milliseconds, and the user of the callback (every
  callback the scheduler arms is \<open>this.sendChallenge(userId)\<close>). \<open>next_timer\<close> is the
  next fresh id. \<open>running\<close> lists the calls of \<open>sendChallenge\<close> that have started and are
  suspended at an \<open>await\<close>.
\<close>

record scheduler =
  activeUsers :: "userId list"
  scheduledChallenges :: "(userId \<times> nat) list"
  timers :: "(nat \<times> real \<times> userId) list"
  next_timer :: nat
  running :: "userId list"

definition new_scheduler :: scheduler where
  "new_scheduler =
     \<lparr> activeUsers = [], scheduledChallenges = [], timers = [], next_timer = 0, running = [] \<rparr>"

definition setTimeout :: "userId \<Rightarrow> real \<Rightarrow> scheduler \<Rightarrow> nat \<times> scheduler" where
  "setTimeout userId delay s =
     (next_timer s,
      s\<lparr>timers := timers s @ [(next_timer s, delay, userId)], next_timer := Suc (next_timer s)\<rparr>)"

definition clearTimeout :: "nat \<Rightarrow> scheduler \<Rightarrow> scheduler" where
  "clearTimeout timeoutId s = s\<lparr>timers := filter (\<lambda>t. fst t \<noteq> timeoutId) (timers s)\<rparr>"

text \<open>\<open>delay\<close> is \<open>challengeTime.getTime() - now.getTime()\<close> for the time
  \<open>getRandomChallengeTime()\<close> chose.\<close>

definition scheduleNextChallenge :: "real \<Rightarrow> userId \<Rightarrow> scheduler \<Rightarrow> scheduler" where
  "scheduleNextChallenge delay userId s =
     (let s1 = (case map_of (scheduledChallenges s) userId of
                  Some timeoutId \<Rightarrow> clearTimeout timeoutId s
                | None \<Rightarrow> s);
          (timeoutId, s2) = setTimeout userId delay s1
      in s2\<lparr>scheduledChallenges := AList.update userId timeoutId (scheduledChallenges s2)\<rparr>)"

definition addUser :: "real \<Rightarrow> userId \<Rightarrow> scheduler \<Rightarrow> scheduler" where
  "addUser delay userId s =
     (if userId \<notin> set (activeUsers s)
      then scheduleNextChallenge delay userId (s\<lparr>activeUsers := activeUsers s @ [userId]\<rparr>)
      else s)"

definition removeUser :: "userId \<Rightarrow> scheduler \<Rightarrow> scheduler" where
  "removeUser userId s =
     (if userId \<in> set (activeUsers s)
      then (let s1 = s\<lparr>activeUsers := removeAll userId (activeUsers s)\<rparr>
            in case map_of (scheduledChallenges s1) userId of
                 Some timeoutId \<Rightarrow>
                   (clearTimeout timeoutId s1)
                     \<lparr>scheduledChallenges := AList.delete userId (scheduledChallenges s1)\<rparr>
               | None \<Rightarrow> s1)
      else s)"

text \<open>
  A JavaScript Number is an IEEE 754 binary64 value, and \<open>+\<close> and \<open>*\<close> return the
  exact result rounded to the nearest representable value, ties to the even significand.
  \<open>round64\<close> rounds a real to 53 significant bits in that way: \<open>exponent x\<close> is the
  binary exponent of \<open>x\<close> (the \<open>e\<close> with \<open>2^e \<le> |x| < 2^(e+1)\<close>), \<open>ulp x\<close> the spacing
  \<open>2^(e-52)\<close> of the representable values there, and \<open>round_even\<close> the nearest integer,
  ties to even. The exponent is not bounded, so \<open>round64\<close> is binary64 rounding for
  results of magnitude between \<open>2^-1022\<close> and \<open>2^1024\<close> and for zero; the only smaller
  result that arises below is the product of a Number by 2, which is exact in both.
\<close>

fun bit_length :: "nat \<Rightarrow> nat" where
  "bit_length n = (if n = 0 then 0 else Suc (bit_length (n div 2)))"

declare bit_length.simps [simp del]

definition exponent :: "real \<Rightarrow> int" where
  "exponent x =
     (if 1 \<le> \<bar>x\<bar> then int (bit_length (nat \<lfloor>\<bar>x\<bar>\<rfloor>)) - 1
      else - int (bit_length (nat (\<lceil>1 / \<bar>x\<bar>\<rceil> - 1))))"

definition ulp :: "real \<Rightarrow> real" where
  "ulp x =
     (let k = exponent x - 52
      in if 0 \<le> k then 2 ^ nat k else 1 / 2 ^ nat (- k))"

definition round_even :: "real \<Rightarrow> int" where
  "round_even q =
     (let f = \<lfloor>q\<rfloor>
      in if q - of_int f < 1 / 2 then f
         else if 1 / 2 < q - of_int f then f + 1
         else if even f then f else f + 1)"

definition round64 :: "real \<Rightarrow> real" where
  "round64 x = (if x = 0 then 0 else of_int (round_even (x / ulp x)) * ulp x)"

definition js_add :: "real \<Rightarrow> real \<Rightarrow> real" where
  "js_add a b = round64 (a + b)"

definition js_mul :: "real \<Rightarrow> real \<Rightarrow> real" where
  "js_mul a b = round64 (a * b)"

text \<open>\<open>(2 + Math.random() * 2) * 24 * 60 * 60 * 1000\<close> for \<open>Math.random() = r\<close>, and
  \<open>60 * 60 * 1000\<close>.\<close>

definition nextChallengeDelay :: "real \<Rightarrow> real" where
  "nextChallengeDelay r =
     js_mul (js_mul (js_mul (js_mul (js_add 2 (js_mul r 2)) 24) 60) 60) 1000"

definition retryDelay :: real where
  "retryDelay = js_mul (js_mul 60 60) 1000"

text \<open>
  \<open>sendChallenge\<close> from the point where its awaits have settled. \<open>shouldSend\<close> is the
  outcome of \<open>await shouldSendChallenge(userId)\<close> and \<open>dispatch\<close> that of
  \<open>await sendAutomatedChallenge(userId, this.bot)\<close>, which runs only when \<open>shouldSend\<close> is
  true; \<open>r\<close> is the value of \<open>Math.random()\<close>.
\<close>

definition sendChallenge ::
  "(error + bool) \<Rightarrow> (error + unit) \<Rightarrow> real \<Rightarrow> userId \<Rightarrow> scheduler \<Rightarrow> scheduler" where
  "sendChallenge shouldSend dispatch r userId s =
     (case (case shouldSend of
              Inl err \<Rightarrow> Inl err
            | Inr b \<Rightarrow> if b then dispatch else Inr ()) of
        Inr u \<Rightarrow>
          (let (nextTimeoutId, s1) = setTimeout userId (nextChallengeDelay r) s
           in s1\<lparr>scheduledChallenges := AList.update userId nextTimeoutId (scheduledChallenges s1)\<rparr>)
      | Inl err \<Rightarrow>
          (let (retryTimeoutId, s1) = setTimeout userId retryDelay s
           in s1\<lparr>scheduledChallenges := AList.update userId retryTimeoutId (scheduledChallenges s1)\<rparr>))"

text \<open>\<open>delays u\<close> is the delay \<open>scheduleNextChallenge\<close> computes for user \<open>u\<close>.\<close>

definition start :: "(userId \<Rightarrow> real) \<Rightarrow> scheduler \<Rightarrow> scheduler" where
  "start delays s = fold (\<lambda>userId. scheduleNextChallenge (delays userId) userId) (activeUsers s) s"

definition stop :: "scheduler \<Rightarrow> scheduler" where
  "stop s = (fold clearTimeout (map snd (scheduledChallenges s)) s)\<lparr>scheduledChallenges := []\<rparr>"

record status =
  st_activeUsers :: "userId list"
  st_scheduledChallenges :: nat
  st_totalUsers :: nat

definition getStatus :: "scheduler \<Rightarrow> status" where
  "getStatus s =
     \<lparr> st_activeUsers = activeUsers s,
       st_scheduledChallenges = length (scheduledChallenges s),
       st_totalUsers = length (activeUsers s) \<rparr>"

section \<open>The scheduler driven by events\<close>

text \<open>
  What can happen to a scheduler: a call of one of its methods; a pending timer fires,
  which starts its callback \<open>sendChallenge(userId)\<close> up to the first \<open>await\<close>; and a
  started \<open>sendChallenge(userId)\<close> resumes after its awaits and arms the next timer. A
  timer that is not pending cannot fire, and only a started call can resume.
\<close>

datatype event =
  AddUser userId real
| RemoveUser userId
| Start "userId \<Rightarrow> real"
| Stop
| Fire nat
| Resume userId "error + bool" "error + unit" real

definition fire :: "nat \<Rightarrow> scheduler \<Rightarrow> scheduler" where
  "fire timeoutId s =
     (case map_of (timers s) timeoutId of
        None \<Rightarrow> s
      | Some (delay, userId) \<Rightarrow> (clearTimeout timeoutId s)\<lparr>running := running s @ [userId]\<rparr>)"

definition resume ::
  "userId \<Rightarrow> (error + bool) \<Rightarrow> (error + unit) \<Rightarrow> real \<Rightarrow> scheduler \<Rightarrow> scheduler" where
  "resume userId shouldSend dispatch r s =
     (if userId \<in> set (running s)
      then sendChallenge shouldSend dispatch r userId (s\<lparr>running := remove1 userId (running s)\<rparr>)
      else s)"

fun step :: "event \<Rightarrow> scheduler \<Rightarrow> scheduler" where
  "step (AddUser userId delay) s = addUser delay userId s"
| "step (RemoveUser userId) s = removeUser userId s"
| "step (Start delays) s = start delays s"
| "step Stop s = stop s"
| "step (Fire timeoutId) s = fire timeoutId s"
| "step (Resume userId shouldSend dispatch r) s = resume userId shouldSend dispatch r s"

definition run :: "event list \<Rightarrow> scheduler \<Rightarrow> scheduler" where
  "run evs s = fold step evs s"

text \<open>The events that are calls of the scheduler's methods.\<close>

fun is_call :: "event \<Rightarrow> bool" where
  "is_call (Fire timeoutId) = False"
| "is_call (Resume userId shouldSend dispatch r) = False"
| "is_call ev = True"

text \<open>The pending timers whose callback is for a given user.\<close>

definition timers_of :: "scheduler \<Rightarrow> userId \<Rightarrow> (nat \<times> real \<times> userId) list" where
  "timers_of s userId = filter (\<lambda>t. snd (snd t) = userId) (timers s)"

text \<open>
  The invariant of a scheduler while no firing is in flight: the pending timers have
  distinct ids below the next fresh id, the map's keys are distinct active users, and
  the map's entries are exactly the pending timers with their users.
\<close>

definition timers_match :: "scheduler \<Rightarrow> bool" where
  "timers_match s =
     (distinct (map fst (timers s)) \<and>
      (\<forall>t \<in> set (timers s). fst t < next_timer s) \<and>
      distinct (map fst (scheduledChallenges s)) \<and>
      fst ` set (scheduledChallenges s) \<subseteq> set (activeUsers s) \<and>
      set (scheduledChallenges s) = (\<lambda>t. (snd (snd t), fst t)) ` set (timers s))"

text \<open>
  The runs in which no call and no other firing falls between a timer's firing and the
  return of its \<open>sendChallenge\<close>: every \<open>Fire\<close> is of a pending timer and is followed
  at once by the \<open>Resume\<close> of that timer's user, and a \<open>Resume\<close> occurs nowhere else.
\<close>

fun firings_complete :: "event list \<Rightarrow> scheduler \<Rightarrow> bool" where
  "firings_complete [] s = True"
| "firings_complete (Fire timeoutId # Resume userId shouldSend dispatch r # evs) s =
     (map_option snd (map_of (timers s) timeoutId) = Some userId \<and>
      firings_complete evs (step (Resume userId shouldSend dispatch r) (step (Fire timeoutId) s)))"
| "firings_complete (Fire timeoutId # evs) s = False"
| "firings_complete (Resume userId shouldSend dispatch r # evs) s = False"
| "firings_complete (ev # evs) s = firings_complete evs (step ev s)"

text \<open>
  The users whose timers \<open>stop()\<close> took: those active at the last \<open>stop()\<close>, less the
  ones removed since, and none once \<open>start()\<close> has run after it. \<open>idle_step\<close> takes the
  list across one event on the state the event meets, \<open>idle_users\<close> across a run.
\<close>

fun idle_step :: "event \<Rightarrow> scheduler \<Rightarrow> userId list \<Rightarrow> userId list" where
  "idle_step Stop s idle = activeUsers s"
| "idle_step (Start delays) s idle = []"
| "idle_step (RemoveUser userId) s idle = removeAll userId idle"
| "idle_step ev s idle = idle"

fun idle_users :: "event list \<Rightarrow> scheduler \<Rightarrow> userId list \<Rightarrow> userId list" where
  "idle_users [] s idle = idle"
| "idle_users (ev # evs) s idle = idle_users evs (step ev s) (idle_step ev s idle)"

text \<open>Whether the \<open>try\<close> block of \<open>sendChallenge\<close> throws: the eligibility check throws,
  or it returns true and the dispatch throws.\<close>

fun handling_throws :: "(error + bool) \<Rightarrow> (error + unit) \<Rightarrow> bool" where
  "handling_throws (Inl err) dispatch = True"
| "handling_throws (Inr b) dispatch = (b \<and> isl dispatch)"


section \<open>Sample data\<close>

text \<open>Surroundings in which nothing fails, and small databases for user 7.\<close>

definition quiet_env :: env where
  "quiet_env =
     \<lparr> feedback_read_error = None, challenges_read_error = None,
       challenges_write_error = None, practice_result = Inr (js_str ''Szenario''),
       send_error = (\<lambda>k. None), serverTimestamp = 0, currentWeek = 45 \<rparr>"

definition sample_phrase :: "string \<Rightarrow> int \<Rightarrow> phrase" where
  "sample_phrase name imp =
     \<lparr> p_original = js_str name, p_improved = js_str ''besser'',
       p_type = js_str ''improvement'', p_importance = Some imp, p_repetitions = Some 0 \<rparr>"

definition sample_doc :: "string \<Rightarrow> int \<Rightarrow> int \<Rightarrow> feedback_doc" where
  "sample_doc name ts imp =
     \<lparr> d_id = js_str name, d_phrases = Some [sample_phrase name imp],
       d_importance = Some 3, d_timestamp = ts,
       d_categories = Some [js_str ''improvement''] \<rparr>"

definition sample_store :: "feedback_doc list \<Rightarrow> firestore" where
  "sample_store docs =
     \<lparr> feedback_items = (\<lambda>u. if u = 7 then docs else []), challenges = (\<lambda>u. []) \<rparr>"

definition sample_world :: "feedback_doc list \<Rightarrow> world" where
  "sample_world docs = \<lparr> store = sample_store docs, sent = [], send_calls = 0 \<rparr>"

definition repeated_docs :: "feedback_doc list" where
  "repeated_docs = [sample_doc ''a'' 60 5, sample_doc ''b'' 50 3, sample_doc ''a'' 40 1]"

definition scenario_docs :: "feedback_doc list" where
  "scenario_docs =
     [sample_doc ''a'' 60 5, sample_doc ''b'' 50 3, sample_doc ''c'' 40 3,
      sample_doc ''d'' 30 1, sample_doc ''e'' 20 5, sample_doc ''f'' 10 2]"


definition sample_events :: "event list" where
  "sample_events =
     [AddUser 7 1000, Fire 0, Resume 7 (Inr True) (Inr ()) (1 / 2), AddUser 8 2000, Stop,
      AddUser 9 300, RemoveUser 8]"

section \<open>Properties of splitMessage\<close>

lemma js_split_nonempty: "js_split sep s \<noteq> []"
  by (induction s) (auto split: list.splits)

text \<open>Joining the pieces with the separator after each one gives the string and one
  more separator.\<close>

lemma js_split_join: "concat (map (\<lambda>l. l @ [sep]) (js_split sep s)) = s @ [sep]"
proof (induction s)
  case Nil
  show ?case by simp
next
  case (Cons c cs)
  show ?case
  proof (cases "c = sep")
    case True
    with Cons show ?thesis by simp
  next
    case False
    obtain l ls where eq: "js_split sep cs = l # ls"
      using js_split_nonempty [of sep cs] by (cases "js_split sep cs") auto
    with Cons False show ?thesis by simp
  qed
qed

lemma split_step_pair:
  "split_step m l (chunks, cur) =
     (if length cur + length l + 1 > m then (chunks @ [cur], l @ [newline])
      else (chunks, cur @ l @ [newline]))"
  by (simp add: split_step_def)

lemma split_fold_concat:
  "fold (split_step m) ls (chunks, cur) = (chunks', cur') \<Longrightarrow>
   concat chunks' @ cur' = concat chunks @ cur @ concat (map (\<lambda>l. l @ [newline]) ls)"
proof (induction ls arbitrary: chunks cur)
  case Nil
  then show ?case by simp
next
  case (Cons l ls)
  show ?case
  proof (cases "length cur + length l + 1 > m")
    case True
    with Cons.prems have "fold (split_step m) ls (chunks @ [cur], l @ [newline]) = (chunks', cur')"
      by (simp add: split_step_pair)
    from Cons.IH [OF this] show ?thesis by simp
  next
    case False
    with Cons.prems have "fold (split_step m) ls (chunks, cur @ l @ [newline]) = (chunks', cur')"
      by (simp add: split_step_pair)
    from Cons.IH [OF this] show ?thesis by simp
  qed
qed

lemma split_fold_bound:
  "fold (split_step m) ls (chunks, cur) = (chunks', cur') \<Longrightarrow>
   \<forall>l \<in> set ls. length l < m \<Longrightarrow>
   \<forall>c \<in> set chunks. length c \<le> m \<Longrightarrow> length cur \<le> m \<Longrightarrow>
   (\<forall>c \<in> set chunks'. length c \<le> m) \<and> length cur' \<le> m"
proof (induction ls arbitrary: chunks cur)
  case Nil
  then show ?case by simp
next
  case (Cons l ls)
  from Cons.prems(2) have l: "length l < m" and ls: "\<forall>l \<in> set ls. length l < m"
    by simp_all
  show ?case
  proof (cases "length cur + length l + 1 > m")
    case True
    with Cons.prems(1) have f: "fold (split_step m) ls (chunks @ [cur], l @ [newline]) = (chunks', cur')"
      by (simp add: split_step_pair)
    have c: "\<forall>c \<in> set (chunks @ [cur]). length c \<le> m"
      using Cons.prems(3,4) by simp
    have n: "length (l @ [newline]) \<le> m"
      using l by simp
    from Cons.IH [OF f ls c n] show ?thesis .
  next
    case False
    with Cons.prems(1) have f: "fold (split_step m) ls (chunks, cur @ l @ [newline]) = (chunks', cur')"
      by (simp add: split_step_pair)
    have n: "length (cur @ l @ [newline]) \<le> m"
      using False by simp
    from Cons.IH [OF f ls Cons.prems(3) n] show ?thesis .
  qed
qed

text \<open>
  Claim C10. For a non-empty message whose every newline-separated line is strictly
  shorter than \<open>maxLength\<close>, every chunk returned by \<open>splitMessage\<close> has length at most
  \<open>maxLength\<close> and the chunks concatenate to the message followed by exactly one more
  newline; for the empty message the result is the empty list.
\<close>

theorem splitMessage_chunks:
  "splitMessage [] maxLength = [] \<and>
   (message \<noteq> [] \<longrightarrow> (\<forall>l \<in> set (js_split newline message). length l < maxLength) \<longrightarrow>
      (\<forall>c \<in> set (splitMessage message maxLength). length c \<le> maxLength) \<and>
      concat (splitMessage message maxLength) = message @ [newline])"
proof (intro conjI impI)
  show "splitMessage [] maxLength = []"
    by (simp add: splitMessage_def)
next
  assume ne: "message \<noteq> []"
    and short: "\<forall>l \<in> set (js_split newline message). length l < maxLength"
  obtain chunks cur where f:
    "fold (split_step maxLength) (js_split newline message) ([], []) = (chunks, cur)"
    by (cases "fold (split_step maxLength) (js_split newline message) ([], [])") auto
  have res: "splitMessage message maxLength = (if cur \<noteq> [] then chunks @ [cur] else chunks)"
    using ne f by (simp add: splitMessage_def)
  have cat: "concat chunks @ cur = message @ [newline]"
    using split_fold_concat [OF f] by (simp add: js_split_join)
  have bnd: "(\<forall>c \<in> set chunks. length c \<le> maxLength) \<and> length cur \<le> maxLength"
    using split_fold_bound [OF f short] by simp
  show "\<forall>c \<in> set (splitMessage message maxLength). length c \<le> maxLength"
    using res bnd by auto
  show "concat (splitMessage message maxLength) = message @ [newline]"
    using res cat by auto
qed

theorem splitMessage_chunks_witness:
  "js_str ''ab'' @ [newline] @ js_str ''cde'' \<noteq> [] \<and>
   list_all (\<lambda>l. length l < 5) (js_split newline (js_str ''ab'' @ [newline] @ js_str ''cde'')) \<and>
   list_all (\<lambda>c. length c \<le> 5) (splitMessage (js_str ''ab'' @ [newline] @ js_str ''cde'') 5) \<and>
   concat (splitMessage (js_str ''ab'' @ [newline] @ js_str ''cde'') 5) =
     (js_str ''ab'' @ [newline] @ js_str ''cde'') @ [newline]"
proof -
  have ne: "js_str ''ab'' @ [newline] @ js_str ''cde'' \<noteq> []"
    by (simp add: js_str_def)
  have short: "\<forall>l \<in> set (js_split newline (js_str ''ab'' @ [newline] @ js_str ''cde'')). length l < 5"
    by (simp add: js_str_def newline_def)
  from splitMessage_chunks [of 5 "js_str ''ab'' @ [newline] @ js_str ''cde''"] ne short
  have "(\<forall>c \<in> set (splitMessage (js_str ''ab'' @ [newline] @ js_str ''cde'') 5). length c \<le> 5) \<and>
     concat (splitMessage (js_str ''ab'' @ [newline] @ js_str ''cde'') 5) =
       (js_str ''ab'' @ [newline] @ js_str ''cde'') @ [newline]"
    by blast
  with ne short show ?thesis
    unfolding list_all_iff by blast
qed

section \<open>Properties of shouldSendChallenge and of the dispatcher\<close>

text \<open>
  Claim C2. When the read of the user's \<open>challenges\<close> collection succeeds,
  \<open>shouldSendChallenge\<close> returns false exactly when at least 4 of the user's entries carry
  the current week; when the read fails it returns true; and in every case it returns a
  value and raises nothing.
\<close>

theorem shouldSendChallenge_weekly_cap:
  "(shouldSendChallenge (e\<lparr>challenges_read_error := None\<rparr>) db userId = Inr False) =
     (4 \<le> length (filter (\<lambda>c. c_week c = currentWeek e) (challenges db userId))) \<and>
   shouldSendChallenge (e\<lparr>challenges_read_error := None\<rparr>) db userId =
     Inr (length (filter (\<lambda>c. c_week c = currentWeek e) (challenges db userId)) < 4) \<and>
   shouldSendChallenge (e\<lparr>challenges_read_error := Some err\<rparr>) db userId = Inr True \<and>
   (\<exists>b. shouldSendChallenge e db userId = Inr b)"
proof (intro conjI)
  show "shouldSendChallenge (e\<lparr>challenges_read_error := None\<rparr>) db userId =
     Inr (length (filter (\<lambda>c. c_week c = currentWeek e) (challenges db userId)) < 4)"
    by (simp add: shouldSendChallenge_def challenges_query_def)
  then show "(shouldSendChallenge (e\<lparr>challenges_read_error := None\<rparr>) db userId = Inr False) =
     (4 \<le> length (filter (\<lambda>c. c_week c = currentWeek e) (challenges db userId)))"
    by auto
  show "shouldSendChallenge (e\<lparr>challenges_read_error := Some err\<rparr>) db userId = Inr True"
    by (simp add: shouldSendChallenge_def challenges_query_def)
  show "\<exists>b. shouldSendChallenge e db userId = Inr b"
    by (cases "challenges_read_error e") (auto simp: shouldSendChallenge_def challenges_query_def)
qed

text \<open>
  Claim C9. When the fetch of the user's feedback documents fails, \<open>getReviewItems\<close>
  returns the empty array, for every user, limit and random source, and raises nothing.
\<close>

theorem getReviewItems_fetch_failure:
  "getReviewItems (e\<lparr>feedback_read_error := Some err\<rparr>) rnd db userId limit = Inr []"
  by (simp add: getReviewItems_def feedback_query_def)

lemma quiet_env_fields:
  "feedback_read_error quiet_env = None"
  "challenges_read_error quiet_env = None"
  "challenges_write_error quiet_env = None"
  "practice_result quiet_env = Inr (js_str ''Szenario'')"
  "send_error quiet_env k = None"
  "serverTimestamp quiet_env = 0"
  "currentWeek quiet_env = 45"
  by (simp_all add: quiet_env_def)

text \<open>With exactly 4 entries for the current week the check returns false, with 3 it
  returns true.\<close>

lemma cap_scenario:
  "shouldSendChallenge quiet_env
     \<lparr>feedback_items = (\<lambda>u. []),
      challenges = (\<lambda>u. replicate 4 \<lparr>c_type = Practice, c_timestamp = 0, c_week = 45\<rparr>)\<rparr> 7 = Inr False"
  "shouldSendChallenge quiet_env
     \<lparr>feedback_items = (\<lambda>u. []),
      challenges = (\<lambda>u. replicate 3 \<lparr>c_type = Practice, c_timestamp = 0, c_week = 45\<rparr>)\<rparr> 7 = Inr True"
  by (simp_all add: shouldSendChallenge_def challenges_query_def quiet_env_fields)

text \<open>The dispatcher itself returns normally whatever fails inside it.\<close>

lemma sendAutomatedChallenge_returns: "fst (sendAutomatedChallenge e rnd userId w) = Inr ()"
  by (simp add: sendAutomatedChallenge_def logChallengeSent_def Let_def
      split: sum.splits option.splits prod.splits)

text \<open>
  Claim C1, evaluated. The user has no feedback documents, nothing fails, and
  \<open>Math.random()\<close> returns 0.25, so the dispatcher chooses a review, finds no review items
  and falls back to a practice challenge: the message delivered is the practice message,
  and the entry appended to the delivery log has type \<open>review\<close>, where the claim requires
  \<open>practice\<close>.
\<close>

theorem sendAutomatedChallenge_fallback_logged_as_review:
  "sent (snd (sendAutomatedChallenge quiet_env (\<lambda>n. 1 / 4) 7 (sample_world []))) =
     [(7, PracticeChallenge (js_str ''Szenario''))] \<and>
   challenges (store (snd (sendAutomatedChallenge quiet_env (\<lambda>n. 1 / 4) 7 (sample_world [])))) 7 =
     [\<lparr>c_type = Review, c_timestamp = 0, c_week = 45\<rparr>]"
  by (simp add: sendAutomatedChallenge_def getReviewItems_def feedback_query_def
      sendPracticeChallenge_def sendMessage_def logChallengeSent_def quiet_env_def
      sample_world_def sample_store_def)

text \<open>The same holds whenever the coin selects a review, no review items are found,
  the practice message is delivered and the log write succeeds: the entry appended has
  type \<open>review\<close>.\<close>

lemma sendPracticeChallenge_store: "store (snd (sendPracticeChallenge e userId w)) = store w"
  by (simp add: sendPracticeChallenge_def sendMessage_def split: sum.splits option.splits prod.splits)

lemma fallback_always_logged_as_review:
  assumes coin: "rnd 0 < 1 / 2"
    and none: "getReviewItems e (\<lambda>n. rnd (Suc n)) (store w) userId 2 = Inr []"
    and delivered: "fst (sendPracticeChallenge e userId w) = Inr ()"
    and written: "challenges_write_error e = None"
  shows "challenges (store (snd (sendAutomatedChallenge e rnd userId w))) userId =
     challenges (store w) userId @
       [\<lparr>c_type = Review, c_timestamp = serverTimestamp e, c_week = currentWeek e\<rparr>]"
proof -
  obtain w1 where p: "sendPracticeChallenge e userId w = (Inr (), w1)"
    using delivered by (cases "sendPracticeChallenge e userId w") auto
  have "store w1 = store w"
    using sendPracticeChallenge_store [of e userId w] by (simp add: p)
  with coin show ?thesis
    by (simp add: sendAutomatedChallenge_def Let_def none p logChallengeSent_def written)
qed

text \<open>The dispatcher never writes to the feedback documents.\<close>

lemma sendAutomatedChallenge_keeps_feedback_items:
  "feedback_items (store (snd (sendAutomatedChallenge e rnd userId w))) = feedback_items (store w)"
  by (simp add: sendAutomatedChallenge_def getReviewItems_def sendPracticeChallenge_def
      sendMessage_def logChallengeSent_def Let_def split: sum.splits option.splits prod.splits)

lemma select_one_sample:
  "select_items (\<lambda>n. 1 / 4) [sample_doc ''a'' 60 3] 2 =
     [mk_item (sample_doc ''a'' 60 3) (sample_phrase ''a'' 3)]"
  by (simp add: select_items_def randomizedItems_def collect_items_def add_doc_def add_phrase_def
      js_sort_def group_push_def object_keys_def shuffle_group_def group_of_def sample_doc_def
      mk_item_def js_or_def sample_phrase_def is_array_index_def)

text \<open>
  Claim C5, evaluated. The user has one document with one phrase whose \<open>repetitions\<close> is
  0, nothing fails, and \<open>Math.random()\<close> returns 0.25: the dispatcher delivers a review
  challenge that uses the phrase and logs it, and the stored phrase still has
  \<open>repetitions\<close> 0, where the claim requires 1.
\<close>

theorem sendAutomatedChallenge_review_no_increment:
  "sent (snd (sendAutomatedChallenge quiet_env (\<lambda>n. 1 / 4) 7 (sample_world [sample_doc ''a'' 60 3]))) =
     [(7, ReviewChallenge [mk_item (sample_doc ''a'' 60 3) (sample_phrase ''a'' 3)])] \<and>
   map c_type (challenges (store (snd (sendAutomatedChallenge quiet_env (\<lambda>n. 1 / 4) 7
      (sample_world [sample_doc ''a'' 60 3])))) 7) = [Review] \<and>
   map (map_option (map p_repetitions) \<circ> d_phrases)
     (feedback_items (store (snd (sendAutomatedChallenge quiet_env (\<lambda>n. 1 / 4) 7
        (sample_world [sample_doc ''a'' 60 3])))) 7) = [Some [Some 0]]"
proof -
  have q: "feedback_query quiet_env (sample_store [sample_doc ''a'' 60 3]) 7 = Inr [sample_doc ''a'' 60 3]"
    by (simp add: feedback_query_def quiet_env_fields sample_store_def)
  have g: "getReviewItems quiet_env (\<lambda>n. 1 / 4) (sample_store [sample_doc ''a'' 60 3]) 7 2 =
      Inr [mk_item (sample_doc ''a'' 60 3) (sample_phrase ''a'' 3)]"
    by (simp add: getReviewItems_def q select_one_sample)
  have r: "snd (sendAutomatedChallenge quiet_env (\<lambda>n. 1 / 4) 7 (sample_world [sample_doc ''a'' 60 3])) =
      \<lparr> store = (sample_store [sample_doc ''a'' 60 3])
           \<lparr>challenges := (challenges (sample_store [sample_doc ''a'' 60 3]))
              (7 := [\<lparr>c_type = Review, c_timestamp = 0, c_week = 45\<rparr>])\<rparr>,
        sent = [(7, ReviewChallenge [mk_item (sample_doc ''a'' 60 3) (sample_phrase ''a'' 3)])],
        send_calls = 1 \<rparr>"
    by (simp add: sendAutomatedChallenge_def sample_world_def g sendMessage_def logChallengeSent_def
        quiet_env_fields) (simp add: sample_store_def)
  show ?thesis
    unfolding r by (simp add: sample_store_def sample_doc_def sample_phrase_def)
qed

section \<open>Properties of getReviewItems\<close>

subsection \<open>Sorting\<close>

lemma mset_insert_by: "mset (insert_by cmp x ys) = add_mset x (mset ys)"
  by (induction ys) auto

lemma mset_js_sort: "mset (js_sort cmp xs) = mset xs"
  unfolding js_sort_def by (induction xs) (auto simp: mset_insert_by)

lemma set_js_sort: "set (js_sort cmp xs) = set xs"
  using mset_js_sort [of cmp xs] by (rule mset_eq_setD)

lemma set_insert_by: "set (insert_by cmp x ys) = insert x (set ys)"
  using mset_insert_by [of cmp x ys] by (metis set_mset_add_mset_insert set_mset_mset)

lemma sorted_insert_desc:
  "sorted_wrt (\<lambda>a b. b \<le> a) ys \<Longrightarrow> sorted_wrt (\<lambda>a b. b \<le> a) (insert_by cmp_desc x ys)"
  by (induction ys) (auto simp: set_insert_by cmp_desc_def)

lemma sorted_js_sort_desc: "sorted_wrt (\<lambda>a b. b \<le> a) (js_sort cmp_desc ks)"
  unfolding js_sort_def by (induction ks) (auto simp: sorted_insert_desc)

subsection \<open>Collecting\<close>

lemma find_append:
  "find P (xs @ ys) = (case find P xs of None \<Rightarrow> find P ys | Some x \<Rightarrow> Some x)"
  by (induction xs) auto

lemma fold_add_doc: "fold add_doc docs st = fold (\<lambda>(d, p). add_phrase d p) (doc_pairs docs) st"
proof (induction docs arbitrary: st)
  case Nil
  show ?case by (simp add: doc_pairs_def)
next
  case (Cons d docs)
  have "fold (\<lambda>(d, p). add_phrase d p) (map (Pair d) ps) st = fold (add_phrase d) ps st" for ps st
    by (simp add: fold_map comp_def)
  then show ?case
    using Cons by (simp add: doc_pairs_def add_doc_def split: option.splits)
qed

lemma collected_fold: "collected pairs (fold (\<lambda>(d, p). add_phrase d p) pairs ([], []))"
proof (induction pairs rule: rev_induct)
  case Nil
  show ?case by (simp add: collected_def)
next
  case (snoc q pairs)
  obtain d p where q: "q = (d, p)" by (cases q)
  obtain pr it where st: "fold (\<lambda>(d, p). add_phrase d p) pairs ([], []) = (pr, it)"
    by (cases "fold (\<lambda>(d, p). add_phrase d p) pairs ([], [])")
  from snoc st have "collected pairs (pr, it)"
    by simp
  then have ih: "pr = map phraseId it"
    "set pr = (\<lambda>(d, p). phraseKey p) ` set pairs" "distinct pr"
    "\<forall>c \<in> set it. \<exists>d p. find (\<lambda>(d', p'). phraseKey p' = phraseId c) pairs = Some (d, p) \<and> c = mk_item d p"
    unfolding collected_def fst_conv snd_conv by blast+
  show ?case
  proof (cases "phraseKey p \<in> set pr")
    case True
    then have res: "fold (\<lambda>(d, p). add_phrase d p) (pairs @ [q]) ([], []) = (pr, it)"
      by (simp add: st q add_phrase_def)
    have "\<forall>c \<in> set it. \<exists>d p. find (\<lambda>(d', p'). phraseKey p' = phraseId c) (pairs @ [q]) = Some (d, p) \<and> c = mk_item d p"
      using ih(4) by (fastforce simp: find_append)
    moreover have "set pr = (\<lambda>(d, p). phraseKey p) ` set (pairs @ [q])"
      using ih(2) True by (auto simp: q)
    ultimately show ?thesis
      unfolding res collected_def fst_conv snd_conv using ih(1,3) by blast
  next
    case False
    then have res: "fold (\<lambda>(d, p). add_phrase d p) (pairs @ [q]) ([], []) =
        (pr @ [phraseKey p], it @ [mk_item d p])"
      by (simp add: st q add_phrase_def)
    have none: "find (\<lambda>(d', p'). phraseKey p' = phraseKey p) pairs = None"
      using False ih(2) by (force simp: find_None_iff)
    have new: "find (\<lambda>(d', p'). phraseKey p' = phraseId (mk_item d p)) (pairs @ [q]) = Some (d, p)"
      using none by (simp add: find_append q mk_item_def)
    have old: "\<forall>c \<in> set it. \<exists>d p. find (\<lambda>(d', p'). phraseKey p' = phraseId c) (pairs @ [q]) = Some (d, p) \<and> c = mk_item d p"
      using ih(4) by (fastforce simp: find_append)
    have keys: "set (pr @ [phraseKey p]) = (\<lambda>(d, p). phraseKey p) ` set (pairs @ [q])"
      using ih(2) by (auto simp: q)
    have ids: "pr @ [phraseKey p] = map phraseId (it @ [mk_item d p])"
      using ih(1) by (simp add: mk_item_def)
    have dist: "distinct (pr @ [phraseKey p])"
      using ih(3) False by simp
    have all: "\<forall>c \<in> set (it @ [mk_item d p]). \<exists>d p. find (\<lambda>(d', p'). phraseKey p' = phraseId c) (pairs @ [q]) = Some (d, p) \<and> c = mk_item d p"
      using old new by auto
    show ?thesis
      unfolding res collected_def fst_conv snd_conv using ids keys dist all by blast
  qed
qed

lemma collect_items_collected:
  "\<exists>pr. collected (doc_pairs docs) (pr, collect_items docs)"
proof -
  obtain pr it where st: "fold (\<lambda>(d, p). add_phrase d p) (doc_pairs docs) ([], []) = (pr, it)"
    by (cases "fold (\<lambda>(d, p). add_phrase d p) (doc_pairs docs) ([], [])")
  then have "collect_items docs = it"
    by (simp add: collect_items_def fold_add_doc)
  with collected_fold [of "doc_pairs docs"] st show ?thesis
    by auto
qed

lemma collect_items_distinct: "distinct (map phraseId (collect_items docs))"
  using collect_items_collected [of docs] by (auto simp: collected_def)

lemma collect_items_first:
  "c \<in> set (collect_items docs) \<Longrightarrow>
   \<exists>d p. find (\<lambda>(d', p'). phraseKey p' = phraseId c) (doc_pairs docs) = Some (d, p) \<and> c = mk_item d p"
  using collect_items_collected [of docs] by (auto simp: collected_def)


subsection \<open>Grouping\<close>

lemma set_update_subset: "set (AList.update k v g) \<subseteq> insert (k, v) (set g)"
  by (induction g) auto

lemma items_of_update:
  "map_of g k = Some grp \<Longrightarrow>
   mset (items_of (AList.update k grp' g)) + mset grp = mset (items_of g) + mset grp'"
  by (induction g) (auto simp: items_of_def)

lemma groups_ok_update:
  assumes ok: "groups_ok g" and v: "\<forall>x \<in> set v. importance x = k"
  shows "groups_ok (AList.update k v g)"
proof -
  have "distinct (map fst (AList.update k v g))"
    using ok by (simp add: groups_ok_def distinct_update)
  moreover have "\<forall>(k', grp) \<in> set (AList.update k v g). \<forall>x \<in> set grp. importance x = k'"
    using ok v set_update_subset [of k v g] by (fastforce simp: groups_ok_def)
  ultimately show ?thesis by (simp add: groups_ok_def)
qed

lemma groups_ok_lookup:
  "groups_ok g \<Longrightarrow> map_of g k = Some grp \<Longrightarrow> x \<in> set grp \<Longrightarrow> importance x = k"
  by (auto simp: groups_ok_def dest!: map_of_SomeD)

lemma group_push_ok: "groups_ok g \<Longrightarrow> groups_ok (group_push item g)"
proof (cases "map_of g (importance item)")
  case None
  assume ok: "groups_ok g"
  from None have "importance item \<notin> fst ` set g"
    by (simp add: map_of_eq_None_iff)
  with ok show ?thesis
    by (auto simp: group_push_def None groups_ok_def)
next
  case (Some grp)
  assume ok: "groups_ok g"
  have "\<forall>x \<in> set (grp @ [item]). importance x = importance item"
    using groups_ok_lookup [OF ok Some] by auto
  from groups_ok_update [OF ok this] show ?thesis
    by (simp add: group_push_def Some)
qed

lemma group_push_items: "mset (items_of (group_push item g)) = add_mset item (mset (items_of g))"
proof (cases "map_of g (importance item)")
  case None
  then show ?thesis by (simp add: group_push_def items_of_def)
next
  case (Some grp)
  from items_of_update [OF Some, of "grp @ [item]"] show ?thesis
    by (simp add: group_push_def Some)
qed

lemma fold_group_push:
  "groups_ok g \<Longrightarrow>
   groups_ok (fold group_push xs g) \<and>
   mset (items_of (fold group_push xs g)) = mset (items_of g) + mset xs"
  by (induction xs arbitrary: g) (auto simp: group_push_ok group_push_items)

subsection \<open>Shuffling\<close>

lemma random_index: "0 \<le> r \<Longrightarrow> r < 1 \<Longrightarrow> nat \<lfloor>r * real (Suc i)\<rfloor> < Suc i"
proof -
  assume r: "0 \<le> r" "r < 1"
  then have "r * real (Suc i) < real (Suc i)"
    by simp
  then have "\<lfloor>r * real (Suc i)\<rfloor> < int (Suc i)"
    by (simp add: floor_less_iff)
  then show ?thesis
    by linarith
qed

lemma mset_swap': "i < length xs \<Longrightarrow> j < length xs \<Longrightarrow> mset (swap i j xs) = mset xs"
  unfolding swap_def by (rule mset_swap)

lemma fisher_yates_mset:
  "in_unit_interval rnd \<Longrightarrow> i < length xs \<Longrightarrow> mset (snd (fisher_yates rnd n i xs)) = mset xs"
proof (induction i arbitrary: n xs)
  case 0
  show ?case by simp
next
  case (Suc i)
  let ?j = "nat \<lfloor>rnd n * real (Suc i + 1)\<rfloor>"
  have "?j < Suc (Suc i)"
    using Suc.prems(1) random_index [of "rnd n" "Suc i"] by (simp add: in_unit_interval_def)
  then have j: "?j < length xs"
    using Suc.prems(2) by simp
  have sw: "mset (swap (Suc i) ?j xs) = mset xs"
    using Suc.prems(2) j by (rule mset_swap')
  have len: "i < length (swap (Suc i) ?j xs)"
    using Suc.prems(2) by (simp add: swap_def)
  from Suc.IH [OF Suc.prems(1) len, of "Suc n"] sw show ?case
    by (simp add: Let_def)
qed

lemma shuffle_group_props:
  assumes rnd: "in_unit_interval rnd" and ok: "groups_ok g"
  shows "groups_ok (snd (shuffle_group rnd k (n, g))) \<and>
         mset (map fst (snd (shuffle_group rnd k (n, g)))) = mset (map fst g) \<and>
         mset (items_of (snd (shuffle_group rnd k (n, g)))) = mset (items_of g)"
proof (cases "map_of g k")
  case None
  with ok show ?thesis by (simp add: shuffle_group_def)
next
  case (Some grp)
  define srt where "srt = js_sort cmp_repetitions grp"
  define b where "b \<longleftrightarrow> rnd n < 3 / 10 \<and> length srt > 1"
  define res where "res =
     (if b then fisher_yates rnd (Suc n) (length srt - 1) srt else (Suc n, srt))"
  have eq: "snd (shuffle_group rnd k (n, g)) = AList.update k (snd res) g"
    by (simp add: shuffle_group_def Some srt_def res_def b_def Let_def split: prod.splits)
  have ms: "mset (snd res) = mset grp"
  proof (cases b)
    case True
    have r: "res = fisher_yates rnd (Suc n) (length srt - 1) srt"
      using True by (simp add: res_def)
    from True have "length srt - 1 < length srt"
      unfolding b_def by linarith
    from fisher_yates_mset [OF rnd this, of "Suc n"] show ?thesis
      unfolding r by (simp add: srt_def mset_js_sort)
  next
    case False
    have r: "res = (Suc n, srt)"
      using False by (simp add: res_def)
    show ?thesis
      unfolding r by (simp add: srt_def mset_js_sort)
  qed
  then have "set (snd res) = set grp"
    by (rule mset_eq_setD)
  then have "\<forall>x \<in> set (snd res). importance x = k"
    using groups_ok_lookup [OF ok Some] by simp
  then have 1: "groups_ok (AList.update k (snd res) g)"
    by (rule groups_ok_update [OF ok])
  have "k \<in> fst ` set g"
    using Some by (metis map_of_eq_None_iff option.distinct(1))
  then have 2: "map fst (AList.update k (snd res) g) = map fst g"
    by (simp add: update_keys)
  have 3: "mset (items_of (AList.update k (snd res) g)) = mset (items_of g)"
    using items_of_update [OF Some, of "snd res"] ms by simp
  from 1 2 3 show ?thesis by (simp add: eq)
qed

lemma fold_shuffle_group:
  "in_unit_interval rnd \<Longrightarrow> groups_ok g \<Longrightarrow>
   groups_ok (snd (fold (shuffle_group rnd) ks (n, g))) \<and>
   mset (map fst (snd (fold (shuffle_group rnd) ks (n, g)))) = mset (map fst g) \<and>
   mset (items_of (snd (fold (shuffle_group rnd) ks (n, g)))) = mset (items_of g)"
proof (induction ks arbitrary: n g)
  case Nil
  then show ?case by simp
next
  case (Cons k ks)
  obtain n' g' where st: "shuffle_group rnd k (n, g) = (n', g')"
    by (cases "shuffle_group rnd k (n, g)")
  from shuffle_group_props [OF Cons.prems, of k n] st
  have g': "groups_ok g'" "mset (map fst g') = mset (map fst g)" "mset (items_of g') = mset (items_of g)"
    by simp_all
  from Cons.IH [OF Cons.prems(1) g'(1), of n'] g'(2,3) show ?case
    by (simp add: st)
qed


subsection \<open>Concatenating the groups\<close>

lemma object_keys_mset: "mset (object_keys g) = mset (map fst g)"
  by (simp add: object_keys_def)

lemma mset_concat_map: "mset (concat (map f ks)) = (\<Sum>k\<in>#mset ks. mset (f k))"
  by (induction ks) auto

lemma group_of_keys: "distinct (map fst g) \<Longrightarrow> map (group_of g) (map fst g) = map snd g"
  by (auto simp: group_of_def)

lemma items_by_levels:
  assumes "groups_ok g" and "mset ks = mset (map fst g)"
  shows "mset (concat (map (group_of g) ks)) = mset (items_of g)"
proof -
  have "mset (concat (map (group_of g) ks)) = mset (concat (map (group_of g) (map fst g)))"
    using assms(2) by (simp only: mset_concat_map)
  also have "\<dots> = mset (items_of g)"
    using assms(1) by (simp only: groups_ok_def group_of_keys items_of_def)
  finally show ?thesis .
qed

lemma group_of_importance: "groups_ok g \<Longrightarrow> x \<in> set (group_of g k) \<Longrightarrow> importance x = k"
  by (cases "map_of g k") (auto simp: group_of_def dest: groups_ok_lookup)

lemma sorted_concat_groups:
  "groups_ok g \<Longrightarrow> sorted_wrt (\<lambda>a b. b \<le> a) ks \<Longrightarrow>
   sorted_wrt (\<lambda>a b. importance b \<le> importance a) (concat (map (group_of g) ks))"
proof (induction ks)
  case Nil
  show ?case by simp
next
  case (Cons k ks)
  have same: "sorted_wrt (\<lambda>a b. importance b \<le> importance a) (group_of g k)"
    using group_of_importance [OF Cons.prems(1), of _ k]
    by (simp add: sorted_wrt_iff_nth_less)
  have later: "\<forall>x \<in> set (group_of g k). \<forall>y \<in> set (concat (map (group_of g) ks)).
      importance y \<le> importance x"
    using Cons.prems(2) group_of_importance [OF Cons.prems(1)] by fastforce
  from Cons same later show ?case
    by (simp add: sorted_wrt_append)
qed

lemma randomizedItems_props:
  assumes rnd: "in_unit_interval rnd"
  shows "mset (randomizedItems rnd docs) = mset (collect_items docs) \<and>
         sorted_wrt (\<lambda>a b. importance b \<le> importance a) (randomizedItems rnd docs)"
proof -
  define g0 where "g0 = fold group_push (js_sort cmp_importance (collect_items docs)) []"
  define g1 where "g1 = snd (fold (shuffle_group rnd) (object_keys g0) (0, g0))"
  define levels where "levels = js_sort cmp_desc (object_keys g1)"
  have res: "randomizedItems rnd docs = concat (map (group_of g1) levels)"
    by (simp add: randomizedItems_def Let_def g0_def g1_def levels_def)
  have "groups_ok []"
    by (simp add: groups_ok_def)
  from fold_group_push [OF this, of "js_sort cmp_importance (collect_items docs)"]
  have g0: "groups_ok g0" "mset (items_of g0) = mset (collect_items docs)"
    by (simp_all add: g0_def items_of_def mset_js_sort)
  from fold_shuffle_group [OF rnd g0(1), of "object_keys g0" 0]
  have g1: "groups_ok g1" "mset (map fst g1) = mset (map fst g0)" "mset (items_of g1) = mset (items_of g0)"
    by (simp_all add: g1_def)
  have lv: "mset levels = mset (map fst g1)"
    by (simp add: levels_def mset_js_sort object_keys_mset)
  have "sorted_wrt (\<lambda>a b. b \<le> a) levels"
    by (simp add: levels_def sorted_js_sort_desc)
  from sorted_concat_groups [OF g1(1) this] items_by_levels [OF g1(1) lv] g1(3) g0(2)
  show ?thesis
    by (simp add: res)
qed

lemma select_items_subset: "in_unit_interval rnd \<Longrightarrow> set (select_items rnd docs limit) \<subseteq> set (collect_items docs)"
proof -
  assume "in_unit_interval rnd"
  then have "set (randomizedItems rnd docs) = set (collect_items docs)"
    using randomizedItems_props mset_eq_setD by blast
  then show ?thesis
    using set_take_subset [of limit "randomizedItems rnd docs"] by (simp add: select_items_def)
qed

lemma select_items_distinct: "in_unit_interval rnd \<Longrightarrow> distinct (map phraseId (select_items rnd docs limit))"
proof -
  assume "in_unit_interval rnd"
  then have "mset (map phraseId (randomizedItems rnd docs)) = mset (map phraseId (collect_items docs))"
    using randomizedItems_props by (metis mset_map)
  from mset_eq_imp_distinct_iff [OF this]
  have "distinct (map phraseId (randomizedItems rnd docs))"
    using collect_items_distinct [of docs] by simp
  then show ?thesis
    by (simp add: select_items_def take_map [symmetric] distinct_take)
qed


subsection \<open>Newest first\<close>

lemma doc_pairs_docs: "q \<in> set (doc_pairs docs) \<Longrightarrow> fst q \<in> set docs"
  by (auto simp: doc_pairs_def split: option.splits)

lemma doc_pairs_Cons:
  "doc_pairs (d # docs) = (case d_phrases d of None \<Rightarrow> [] | Some ps \<Rightarrow> map (Pair d) ps) @ doc_pairs docs"
  by (simp add: doc_pairs_def)

lemma doc_pairs_sorted:
  "sorted_wrt (\<lambda>a b. d_timestamp b \<le> d_timestamp a) docs \<Longrightarrow>
   sorted_wrt (\<lambda>a b. d_timestamp (fst b) \<le> d_timestamp (fst a)) (doc_pairs docs)"
proof (induction docs)
  case Nil
  show ?case by (simp add: doc_pairs_def)
next
  case (Cons d docs)
  have own: "sorted_wrt (\<lambda>a b. d_timestamp (fst b) \<le> d_timestamp (fst a))
      (case d_phrases d of None \<Rightarrow> [] | Some ps \<Rightarrow> map (Pair d) ps)"
    by (simp add: sorted_wrt_iff_nth_less split: option.splits)
  have cross: "\<forall>x \<in> set (case d_phrases d of None \<Rightarrow> [] | Some ps \<Rightarrow> map (Pair d) ps).
      \<forall>y \<in> set (doc_pairs docs). d_timestamp (fst y) \<le> d_timestamp (fst x)"
    using Cons.prems doc_pairs_docs [of _ docs] by (auto split: option.splits)
  from Cons own cross show ?case
    by (simp add: doc_pairs_Cons sorted_wrt_append)
qed

lemma find_first_is_newest:
  fixes f :: "'a \<Rightarrow> int"
  shows "sorted_wrt (\<lambda>a b. f b \<le> f a) xs \<Longrightarrow> find P xs = Some x \<Longrightarrow> y \<in> set xs \<Longrightarrow> P y \<Longrightarrow> f y \<le> f x"
  by (induction xs) (auto split: if_splits)

lemma phraseId_pair:
  "find (\<lambda>(d', p'). phraseKey p' = phraseId c) pairs = Some (d, p) \<Longrightarrow> c = mk_item d p \<Longrightarrow>
   phraseId c = original c @ js_str ''-'' @ improved c"
  by (simp add: mk_item_def phraseKey_def)

subsection \<open>Sample runs\<close>

lemma sample_key: "phraseKey (sample_phrase name imp) = js_str name @ js_str ''-besser''"
  by (simp add: sample_phrase_def phraseKey_def js_str_def)

lemma sample_item_importance: "imp \<noteq> 0 \<Longrightarrow> importance (mk_item (sample_doc name ts imp) (sample_phrase name imp)) = imp"
  by (simp add: mk_item_def sample_phrase_def js_or_def)

lemma add_sample_doc:
  "add_doc (sample_doc name ts imp) (pr, it) =
     (if js_str name @ js_str ''-besser'' \<in> set pr then (pr, it)
      else (pr @ [js_str name @ js_str ''-besser''],
            it @ [mk_item (sample_doc name ts imp) (sample_phrase name imp)]))"
  by (simp add: add_doc_def add_phrase_def sample_doc_def sample_key)

lemma collect_scenario:
  "collect_items scenario_docs =
     [mk_item (sample_doc ''a'' 60 5) (sample_phrase ''a'' 5),
      mk_item (sample_doc ''b'' 50 3) (sample_phrase ''b'' 3),
      mk_item (sample_doc ''c'' 40 3) (sample_phrase ''c'' 3),
      mk_item (sample_doc ''d'' 30 1) (sample_phrase ''d'' 1),
      mk_item (sample_doc ''e'' 20 5) (sample_phrase ''e'' 5),
      mk_item (sample_doc ''f'' 10 2) (sample_phrase ''f'' 2)]"
  unfolding collect_items_def scenario_docs_def
  by (simp add: add_sample_doc js_str_def)


lemma quarter_in_unit_interval: "in_unit_interval (\<lambda>n. 1 / 4)"
  by (simp add: in_unit_interval_def)

lemma sample_query: "length docs \<le> 50 \<Longrightarrow> feedback_query quiet_env (sample_store docs) 7 = Inr docs"
  by (simp add: feedback_query_def quiet_env_def sample_store_def)

lemma collect_items_keys:
  "phraseId ` set (collect_items docs) = (\<lambda>(d, p). phraseKey p) ` set (doc_pairs docs)"
proof -
  from collect_items_collected [of docs] obtain pr where
    c: "collected (doc_pairs docs) (pr, collect_items docs)"
    by blast
  then have "fst (pr, collect_items docs) = map phraseId (snd (pr, collect_items docs))"
    and "set (fst (pr, collect_items docs)) = (\<lambda>(d, p). phraseKey p) ` set (doc_pairs docs)"
    unfolding collected_def by blast+
  then have "set (map phraseId (collect_items docs)) = (\<lambda>(d, p). phraseKey p) ` set (doc_pairs docs)"
    by simp
  then show ?thesis
    by simp
qed

lemma collect_items_length:
  "length (collect_items docs) = card ((\<lambda>(d, p). phraseKey p) ` set (doc_pairs docs))"
proof -
  have "card (set (map phraseId (collect_items docs))) = length (map phraseId (collect_items docs))"
    by (rule distinct_card [OF collect_items_distinct])
  then show ?thesis
    by (simp add: collect_items_keys)
qed

lemma every_key_collected:
  assumes q: "(d', p') \<in> set (doc_pairs docs)"
  shows "\<exists>d p. find (\<lambda>(d'', p''). phraseKey p'' = phraseKey p') (doc_pairs docs) = Some (d, p) \<and>
           mk_item d p \<in> set (collect_items docs)"
proof -
  from q have "phraseKey p' \<in> phraseId ` set (collect_items docs)"
    unfolding collect_items_keys by force
  then obtain c where c: "c \<in> set (collect_items docs)" and k: "phraseId c = phraseKey p'"
    by auto
  from collect_items_first [OF c] k show ?thesis
    using c by auto
qed

lemma collect_repeated:
  "collect_items repeated_docs =
     [mk_item (sample_doc ''a'' 60 5) (sample_phrase ''a'' 5),
      mk_item (sample_doc ''b'' 50 3) (sample_phrase ''b'' 3)]"
  unfolding collect_items_def repeated_docs_def
  by (simp add: add_sample_doc js_str_def)

lemma grouped_repeated:
  "fold group_push (js_sort cmp_importance (collect_items repeated_docs)) [] =
     [(5, [mk_item (sample_doc ''a'' 60 5) (sample_phrase ''a'' 5)]),
      (3, [mk_item (sample_doc ''b'' 50 3) (sample_phrase ''b'' 3)])]"
  by (simp add: collect_repeated js_sort_def cmp_importance_def sample_item_importance
      group_push_def)

lemma repeated_run:
  "select_items (\<lambda>n. 1 / 4) repeated_docs 3 =
     [mk_item (sample_doc ''a'' 60 5) (sample_phrase ''a'' 5),
      mk_item (sample_doc ''b'' 50 3) (sample_phrase ''b'' 3)]"
  unfolding select_items_def randomizedItems_def Let_def grouped_repeated
  by (simp add: shuffle_group_def js_sort_def swap_def object_keys_def is_array_index_def
      cmp_desc_def group_of_def)

lemma repeated_returned:
  "getReviewItems quiet_env (\<lambda>n. 1 / 4) (sample_store repeated_docs) 7 3 =
     Inr [mk_item (sample_doc ''a'' 60 5) (sample_phrase ''a'' 5),
          mk_item (sample_doc ''b'' 50 3) (sample_phrase ''b'' 3)]"
proof -
  have "feedback_query quiet_env (sample_store repeated_docs) 7 = Inr repeated_docs"
    by (rule sample_query) (simp add: repeated_docs_def)
  moreover have "repeated_docs \<noteq> []"
    by (simp add: repeated_docs_def)
  ultimately show ?thesis
    by (simp add: getReviewItems_def repeated_run)
qed

lemma repeated_timestamps:
  "map timestamp [mk_item (sample_doc ''a'' 60 5) (sample_phrase ''a'' 5),
                  mk_item (sample_doc ''b'' 50 3) (sample_phrase ''b'' 3)] = [60, 50]"
  by (simp add: mk_item_def sample_doc_def)

text \<open>
  Claim C3. Whatever documents are fetched and whatever \<open>Math.random()\<close> returns,
  \<open>getReviewItems\<close> returns no two items with the same \<open>phraseId\<close> (nor, therefore,
  with the same original-improved pair), and each returned item was built from the first
  occurrence of its key in processing order; when the fetched documents are ordered
  newest first, as the query orders them, that is an occurrence in a document at least
  as recent as every other document holding the key. The first occurrence is kept: the
  returned array is the first \<open>limit\<close> of a list of candidates that holds, for every key
  occurring in the fetched documents, the item built from the key's first occurrence, one
  candidate per key; so the number of returned items is the smaller of \<open>limit\<close> and the
  number of distinct keys, and when there are no more than \<open>limit\<close> distinct keys, every
  key's first occurrence is returned.
\<close>

theorem getReviewItems_one_per_phraseKey:
  assumes rnd: "in_unit_interval rnd"
    and fetch: "feedback_query e db userId = Inr docs"
  shows "\<exists>items. getReviewItems e rnd db userId limit = Inr items \<and>
     distinct (map phraseId items) \<and>
     distinct (map (\<lambda>c. (original c, improved c)) items) \<and>
     (\<forall>c \<in> set items. \<exists>d p.
        find (\<lambda>(d', p'). phraseKey p' = phraseId c) (doc_pairs docs) = Some (d, p) \<and>
        c = mk_item d p \<and>
        (sorted_wrt (\<lambda>a b. d_timestamp b \<le> d_timestamp a) docs \<longrightarrow>
           (\<forall>(d', p') \<in> set (doc_pairs docs).
              phraseKey p' = phraseId c \<longrightarrow> d_timestamp d' \<le> timestamp c))) \<and>
     length items = min limit (card ((\<lambda>(d, p). phraseKey p) ` set (doc_pairs docs))) \<and>
     (\<exists>candidates. items = take limit candidates \<and>
        length candidates = card ((\<lambda>(d, p). phraseKey p) ` set (doc_pairs docs)) \<and>
        (\<forall>(d', p') \<in> set (doc_pairs docs). \<exists>d p.
           find (\<lambda>(d'', p''). phraseKey p'' = phraseKey p') (doc_pairs docs) = Some (d, p) \<and>
           mk_item d p \<in> set candidates)) \<and>
     (card ((\<lambda>(d, p). phraseKey p) ` set (doc_pairs docs)) \<le> limit \<longrightarrow>
        (\<forall>(d', p') \<in> set (doc_pairs docs). \<exists>d p.
           find (\<lambda>(d'', p''). phraseKey p'' = phraseKey p') (doc_pairs docs) = Some (d, p) \<and>
           mk_item d p \<in> set items))"
proof -
  define items where "items = (if docs = [] then [] else select_items rnd docs limit)"
  define keys where "keys = (\<lambda>(d, p). phraseKey p) ` set (doc_pairs docs)"
  have res: "getReviewItems e rnd db userId limit = Inr items"
    by (simp add: getReviewItems_def fetch items_def)
  have sub: "set items \<subseteq> set (collect_items docs)"
    using select_items_subset [OF rnd, of docs limit] by (simp add: items_def)
  have d1: "distinct (map phraseId items)"
    using select_items_distinct [OF rnd, of docs limit] by (simp add: items_def)
  have first: "\<exists>d p. find (\<lambda>(d', p'). phraseKey p' = phraseId c) (doc_pairs docs) = Some (d, p) \<and>
        c = mk_item d p \<and>
        (sorted_wrt (\<lambda>a b. d_timestamp b \<le> d_timestamp a) docs \<longrightarrow>
           (\<forall>(d', p') \<in> set (doc_pairs docs).
              phraseKey p' = phraseId c \<longrightarrow> d_timestamp d' \<le> timestamp c))"
    if c: "c \<in> set items" for c
  proof -
    from c sub collect_items_first [of c docs] obtain d p where
      f: "find (\<lambda>(d', p'). phraseKey p' = phraseId c) (doc_pairs docs) = Some (d, p)"
      and m: "c = mk_item d p"
      by blast
    have ts: "timestamp c = d_timestamp d"
      by (simp add: m mk_item_def)
    have "d_timestamp d' \<le> timestamp c"
      if "sorted_wrt (\<lambda>a b. d_timestamp b \<le> d_timestamp a) docs"
        and "(d', p') \<in> set (doc_pairs docs)" and "phraseKey p' = phraseId c" for d' p'
      using find_first_is_newest [OF doc_pairs_sorted [OF that(1)] f that(2)] that(3)
      by (simp add: ts)
    with f m show ?thesis
      by blast
  qed
  have key: "phraseId c = original c @ js_str ''-'' @ improved c" if "c \<in> set items" for c
    using first [OF that] phraseId_pair by blast
  have "inj_on (\<lambda>c. (original c, improved c)) (set items)"
  proof (rule inj_onI)
    fix a b
    assume a: "a \<in> set items" and b: "b \<in> set items"
      and eq: "(original a, improved a) = (original b, improved b)"
    then have "phraseId a = phraseId b"
      by (simp add: key)
    with d1 a b show "a = b"
      by (meson distinct_map inj_on_def)
  qed
  moreover have "distinct items"
    using d1 by (simp add: distinct_map)
  ultimately have d2: "distinct (map (\<lambda>c. (original c, improved c)) items)"
    by (simp add: distinct_map)
  define candidates where "candidates = randomizedItems rnd docs"
  from randomizedItems_props [OF rnd, of docs]
  have ms: "mset candidates = mset (collect_items docs)"
    by (simp add: candidates_def)
  have "collect_items [] = []"
    by (simp add: collect_items_def)
  with ms have "candidates = []" if "docs = []"
    using that by simp
  then have cut: "items = take limit candidates"
    by (simp add: items_def select_items_def candidates_def)
  have len: "length candidates = card keys"
    using mset_eq_length [OF ms] by (simp add: collect_items_length keys_def)
  have kept: "\<exists>d p. find (\<lambda>(d'', p''). phraseKey p'' = phraseKey p') (doc_pairs docs) = Some (d, p) \<and>
           mk_item d p \<in> set candidates"
    if "(d', p') \<in> set (doc_pairs docs)" for d' p'
    using every_key_collected [OF that] mset_eq_setD [OF ms] by simp
  have n: "length items = min limit (card keys)"
    by (simp add: cut len min.commute)
  have all: "items = candidates" if "card keys \<le> limit"
    using that by (simp add: cut len)
  show ?thesis
    unfolding keys_def [symmetric]
  proof (rule exI [of _ items], intro conjI ballI impI)
    show "getReviewItems e rnd db userId limit = Inr items"
      by (rule res)
    show "distinct (map phraseId items)"
      by (rule d1)
    show "distinct (map (\<lambda>c. (original c, improved c)) items)"
      by (rule d2)
    show "length items = min limit (card keys)"
      by (rule n)
    show "\<exists>candidates. items = take limit candidates \<and>
        length candidates = card keys \<and>
        (\<forall>(d', p') \<in> set (doc_pairs docs). \<exists>d p.
           find (\<lambda>(d'', p''). phraseKey p'' = phraseKey p') (doc_pairs docs) = Some (d, p) \<and>
           mk_item d p \<in> set candidates)"
    proof (intro exI [of _ candidates] conjI ballI)
      show "items = take limit candidates"
        by (rule cut)
      show "length candidates = card keys"
        by (rule len)
    next
      fix q
      assume a: "q \<in> set (doc_pairs docs)"
      obtain d' p' where q: "q = (d', p')"
        by (cases q)
      from kept [of d' p'] a
      show "case q of (d', p') \<Rightarrow> \<exists>d p.
           find (\<lambda>(d'', p''). phraseKey p'' = phraseKey p') (doc_pairs docs) = Some (d, p) \<and>
           mk_item d p \<in> set candidates"
        by (simp add: q)
    qed
  next
    fix c
    assume "c \<in> set items"
    then show "\<exists>d p. find (\<lambda>(d', p'). phraseKey p' = phraseId c) (doc_pairs docs) = Some (d, p) \<and>
        c = mk_item d p \<and>
        (sorted_wrt (\<lambda>a b. d_timestamp b \<le> d_timestamp a) docs \<longrightarrow>
           (\<forall>(d', p') \<in> set (doc_pairs docs).
              phraseKey p' = phraseId c \<longrightarrow> d_timestamp d' \<le> timestamp c))"
      by (rule first)
  next
    fix q
    assume k: "card keys \<le> limit" and a: "q \<in> set (doc_pairs docs)"
    obtain d' p' where q: "q = (d', p')"
      by (cases q)
    from kept [of d' p'] a
    show "case q of (d', p') \<Rightarrow> \<exists>d p.
           find (\<lambda>(d'', p''). phraseKey p'' = phraseKey p') (doc_pairs docs) = Some (d, p) \<and>
           mk_item d p \<in> set items"
      by (simp add: q all [OF k])
  qed
qed

theorem getReviewItems_one_per_phraseKey_witness:
  "in_unit_interval (\<lambda>n. 1 / 4) \<and>
   feedback_query quiet_env (sample_store repeated_docs) 7 = Inr repeated_docs \<and>
   sorted_wrt (\<lambda>a b. d_timestamp b \<le> d_timestamp a) repeated_docs \<and>
   map (\<lambda>(d, p). (phraseKey p, d_timestamp d)) (doc_pairs repeated_docs) =
     [(js_str ''a-besser'', 60), (js_str ''b-besser'', 50), (js_str ''a-besser'', 40)] \<and>
   getReviewItems quiet_env (\<lambda>n. 1 / 4) (sample_store repeated_docs) 7 3 =
     Inr [mk_item (sample_doc ''a'' 60 5) (sample_phrase ''a'' 5),
          mk_item (sample_doc ''b'' 50 3) (sample_phrase ''b'' 3)] \<and>
   map (\<lambda>c. (phraseId c, timestamp c))
       [mk_item (sample_doc ''a'' 60 5) (sample_phrase ''a'' 5),
        mk_item (sample_doc ''b'' 50 3) (sample_phrase ''b'' 3)] =
     [(js_str ''a-besser'', 60), (js_str ''b-besser'', 50)] \<and>
   (\<exists>items. getReviewItems quiet_env (\<lambda>n. 1 / 4) (sample_store repeated_docs) 7 3 = Inr items \<and>
     distinct (map phraseId items) \<and>
     distinct (map (\<lambda>c. (original c, improved c)) items) \<and>
     (\<forall>c \<in> set items. \<exists>d p.
        find (\<lambda>(d', p'). phraseKey p' = phraseId c) (doc_pairs repeated_docs) = Some (d, p) \<and>
        c = mk_item d p \<and>
        (sorted_wrt (\<lambda>a b. d_timestamp b \<le> d_timestamp a) repeated_docs \<longrightarrow>
           (\<forall>(d', p') \<in> set (doc_pairs repeated_docs).
              phraseKey p' = phraseId c \<longrightarrow> d_timestamp d' \<le> timestamp c))) \<and>
     length items = min 3 (card ((\<lambda>(d, p). phraseKey p) ` set (doc_pairs repeated_docs))) \<and>
     (\<exists>candidates. items = take 3 candidates \<and>
        length candidates = card ((\<lambda>(d, p). phraseKey p) ` set (doc_pairs repeated_docs)) \<and>
        (\<forall>(d', p') \<in> set (doc_pairs repeated_docs). \<exists>d p.
           find (\<lambda>(d'', p''). phraseKey p'' = phraseKey p') (doc_pairs repeated_docs) = Some (d, p) \<and>
           mk_item d p \<in> set candidates)) \<and>
     (card ((\<lambda>(d, p). phraseKey p) ` set (doc_pairs repeated_docs)) \<le> 3 \<longrightarrow>
        (\<forall>(d', p') \<in> set (doc_pairs repeated_docs). \<exists>d p.
           find (\<lambda>(d'', p''). phraseKey p'' = phraseKey p') (doc_pairs repeated_docs) = Some (d, p) \<and>
           mk_item d p \<in> set items)))"
proof -
  have q: "feedback_query quiet_env (sample_store repeated_docs) 7 = Inr repeated_docs"
    by (rule sample_query) (simp add: repeated_docs_def)
  have n: "sorted_wrt (\<lambda>a b. d_timestamp b \<le> d_timestamp a) repeated_docs"
    by (simp add: repeated_docs_def sample_doc_def)
  have p: "map (\<lambda>(d, p). (phraseKey p, d_timestamp d)) (doc_pairs repeated_docs) =
     [(js_str ''a-besser'', 60), (js_str ''b-besser'', 50), (js_str ''a-besser'', 40)]"
    by (simp add: doc_pairs_def repeated_docs_def sample_doc_def sample_key js_str_def)
  have t: "map (\<lambda>c. (phraseId c, timestamp c))
       [mk_item (sample_doc ''a'' 60 5) (sample_phrase ''a'' 5),
        mk_item (sample_doc ''b'' 50 3) (sample_phrase ''b'' 3)] =
     [(js_str ''a-besser'', 60), (js_str ''b-besser'', 50)]"
    by (simp add: mk_item_def sample_doc_def sample_key js_str_def)
  from getReviewItems_one_per_phraseKey [OF quarter_in_unit_interval q, of 3]
  show ?thesis
    by (rule conjI [OF quarter_in_unit_interval conjI [OF q conjI [OF n conjI [OF p
        conjI [OF repeated_returned conjI [OF t]]]]]])
qed

lemma desc_sorted_unique:
  fixes xs :: "int list"
  assumes "sorted_wrt (\<lambda>a b. b \<le> a) xs" and "mset xs = mset ys"
  shows "xs = rev (sort ys)"
proof -
  have "sorted (rev xs)"
    using assms(1) by (simp add: sorted_wrt_rev)
  moreover have "mset (rev xs) = mset ys"
    using assms(2) by simp
  ultimately have "sort ys = rev xs"
    by (rule properties_for_sort [rotated])
  then show ?thesis
    by simp
qed

text \<open>
  Claim C4. Whatever documents are fetched and whatever \<open>Math.random()\<close> returns,
  the items \<open>getReviewItems\<close> returns are in descending order of importance and number
  at most \<open>limit\<close>. When the collected candidates have importances
  \<open>[5, 3, 3, 1, 5, 2]\<close> (whatever their repetitions, so also when all are 0) and
  \<open>limit\<close> is 3, the result holds both candidates of importance 5 followed by one of
  importance 3, and none of importance 1 or 2.
\<close>

theorem getReviewItems_priority_order:
  assumes rnd: "in_unit_interval rnd"
    and fetch: "feedback_query e db userId = Inr docs"
  shows "\<exists>items. getReviewItems e rnd db userId limit = Inr items \<and>
     sorted_wrt (\<lambda>a b. importance b \<le> importance a) items \<and>
     length items \<le> limit \<and>
     (map importance (collect_items docs) = [5, 3, 3, 1, 5, 2] \<and> limit = 3 \<longrightarrow>
        map importance items = [5, 5, 3] \<and>
        (\<forall>c \<in> set (collect_items docs). importance c = 5 \<longrightarrow> c \<in> set items))"
proof -
  define R where "R = randomizedItems rnd docs"
  define items where "items = (if docs = [] then [] else take limit R)"
  have res: "getReviewItems e rnd db userId limit = Inr items"
    by (simp add: getReviewItems_def fetch items_def select_items_def R_def)
  from randomizedItems_props [OF rnd, of docs]
  have perm: "mset R = mset (collect_items docs)"
    and srt: "sorted_wrt (\<lambda>a b. importance b \<le> importance a) R"
    by (simp_all add: R_def)
  have s: "sorted_wrt (\<lambda>a b. importance b \<le> importance a) items"
    using srt by (simp add: items_def sorted_wrt_take)
  have l: "length items \<le> limit"
    by (simp add: items_def)
  have scen: "map importance items = [5, 5, 3] \<and>
        (\<forall>c \<in> set (collect_items docs). importance c = 5 \<longrightarrow> c \<in> set items)"
    if imp: "map importance (collect_items docs) = [5, 3, 3, 1, 5, 2]" and lim: "limit = 3"
  proof -
    from imp have ne: "docs \<noteq> []"
      by (auto simp: collect_items_def)
    then have it: "items = take 3 R"
      by (simp add: items_def lim)
    have "sorted_wrt (\<lambda>a b. b \<le> a) (map importance R)"
      using srt by (simp add: sorted_wrt_map)
    moreover have "mset (map importance R) = mset [5, 3, 3, 1, 5, 2]"
      using perm imp by (metis mset_map)
    ultimately have "map importance R = rev (sort [5, 3, 3, 1, 5, 2])"
      by (rule desc_sorted_unique)
    then have all: "map importance R = [5, 5, 3, 3, 2, 1]"
      by simp
    have t: "map importance (take 3 R) = [5, 5, 3]"
      using all by (simp add: take_map [symmetric])
    have d: "map importance (drop 3 R) = [3, 2, 1]"
      using all by (simp add: drop_map [symmetric])
    have "c \<in> set (take 3 R)" if c: "c \<in> set (collect_items docs)" and five: "importance c = 5" for c
    proof (rule ccontr)
      assume "c \<notin> set (take 3 R)"
      moreover have "c \<in> set R"
        using c perm mset_eq_setD by fastforce
      then have "c \<in> set (take 3 R) \<union> set (drop 3 R)"
        by (simp only: set_append [symmetric] append_take_drop_id)
      ultimately have "c \<in> set (drop 3 R)"
        by blast
      then have "importance c \<in> set (map importance (drop 3 R))"
        by simp
      with d five show False
        by simp
    qed
    with t it show ?thesis
      by simp
  qed
  show ?thesis
  proof (intro exI [of _ items] conjI impI)
    show "getReviewItems e rnd db userId limit = Inr items"
      by (rule res)
    show "sorted_wrt (\<lambda>a b. importance b \<le> importance a) items"
      by (rule s)
    show "length items \<le> limit"
      by (rule l)
  next
    assume a: "map importance (collect_items docs) = [5, 3, 3, 1, 5, 2] \<and> limit = 3"
    from scen [OF conjunct1 [OF a] conjunct2 [OF a]]
    show "map importance items = [5, 5, 3]"
      by (rule conjunct1)
    from scen [OF conjunct1 [OF a] conjunct2 [OF a]]
    show "\<forall>c \<in> set (collect_items docs). importance c = 5 \<longrightarrow> c \<in> set items"
      by (rule conjunct2)
  qed
qed

theorem getReviewItems_priority_order_witness:
  "in_unit_interval (\<lambda>n. 1 / 4) \<and>
   feedback_query quiet_env (sample_store scenario_docs) 7 = Inr scenario_docs \<and>
   map importance (collect_items scenario_docs) = [5, 3, 3, 1, 5, 2] \<and>
   (\<exists>items. getReviewItems quiet_env (\<lambda>n. 1 / 4) (sample_store scenario_docs) 7 3 = Inr items \<and>
     sorted_wrt (\<lambda>a b. importance b \<le> importance a) items \<and>
     length items \<le> 3 \<and>
     map importance items = [5, 5, 3] \<and>
     (\<forall>c \<in> set (collect_items scenario_docs). importance c = 5 \<longrightarrow> c \<in> set items))"
proof -
  have q: "feedback_query quiet_env (sample_store scenario_docs) 7 = Inr scenario_docs"
    by (rule sample_query) (simp add: scenario_docs_def)
  have i: "map importance (collect_items scenario_docs) = [5, 3, 3, 1, 5, 2]"
    by (simp add: collect_scenario sample_item_importance)
  from getReviewItems_priority_order [OF quarter_in_unit_interval q, of 3]
  obtain items where
    r: "getReviewItems quiet_env (\<lambda>n. 1 / 4) (sample_store scenario_docs) 7 3 = Inr items"
    and s: "sorted_wrt (\<lambda>a b. importance b \<le> importance a) items"
    and l: "length items \<le> 3"
    and sc: "map importance (collect_items scenario_docs) = [5, 3, 3, 1, 5, 2] \<and> (3::nat) = 3 \<longrightarrow>
        map importance items = [5, 5, 3] \<and>
        (\<forall>c \<in> set (collect_items scenario_docs). importance c = 5 \<longrightarrow> c \<in> set items)"
    by (elim exE conjE)
  have "map importance (collect_items scenario_docs) = [5, 3, 3, 1, 5, 2] \<and> (3::nat) = 3"
    using i by simp
  with sc have c: "map importance items = [5, 5, 3] \<and>
        (\<forall>c \<in> set (collect_items scenario_docs). importance c = 5 \<longrightarrow> c \<in> set items)"
    by (rule mp)
  have "\<exists>items. getReviewItems quiet_env (\<lambda>n. 1 / 4) (sample_store scenario_docs) 7 3 = Inr items \<and>
     sorted_wrt (\<lambda>a b. importance b \<le> importance a) items \<and>
     length items \<le> 3 \<and>
     map importance items = [5, 5, 3] \<and>
     (\<forall>c \<in> set (collect_items scenario_docs). importance c = 5 \<longrightarrow> c \<in> set items)"
    by (rule exI [of _ items]) (rule conjI [OF r conjI [OF s conjI [OF l c]]])
  then show ?thesis
    by (rule conjI [OF quarter_in_unit_interval conjI [OF q conjI [OF i]]])
qed

text \<open>A run of the scenario in which \<open>Math.random()\<close> always returns 0.25: every group
  is shuffled, and the two groups of two items are each swapped.\<close>

lemma sample_item_repetitions: "repetitions (mk_item (sample_doc name ts imp) (sample_phrase name imp)) = 0"
  by (simp add: mk_item_def sample_phrase_def js_or_def)

lemma sorted_scenario:
  "js_sort cmp_importance (collect_items scenario_docs) =
     [mk_item (sample_doc ''a'' 60 5) (sample_phrase ''a'' 5),
      mk_item (sample_doc ''e'' 20 5) (sample_phrase ''e'' 5),
      mk_item (sample_doc ''b'' 50 3) (sample_phrase ''b'' 3),
      mk_item (sample_doc ''c'' 40 3) (sample_phrase ''c'' 3),
      mk_item (sample_doc ''f'' 10 2) (sample_phrase ''f'' 2),
      mk_item (sample_doc ''d'' 30 1) (sample_phrase ''d'' 1)]"
  by (simp add: collect_scenario js_sort_def cmp_importance_def sample_item_importance
      sample_item_repetitions)

lemma grouped_scenario:
  "fold group_push (js_sort cmp_importance (collect_items scenario_docs)) [] =
     [(5, [mk_item (sample_doc ''a'' 60 5) (sample_phrase ''a'' 5),
           mk_item (sample_doc ''e'' 20 5) (sample_phrase ''e'' 5)]),
      (3, [mk_item (sample_doc ''b'' 50 3) (sample_phrase ''b'' 3),
           mk_item (sample_doc ''c'' 40 3) (sample_phrase ''c'' 3)]),
      (2, [mk_item (sample_doc ''f'' 10 2) (sample_phrase ''f'' 2)]),
      (1, [mk_item (sample_doc ''d'' 30 1) (sample_phrase ''d'' 1)])]"
  by (simp add: sorted_scenario group_push_def sample_item_importance)

lemma keys_scenario:
  "object_keys [(5, a), (3, b), (2, c), (1, d)] = [1, 2, 3, 5]"
  by (simp add: object_keys_def is_array_index_def)

lemma scenario_run:
  "select_items (\<lambda>n. 1 / 4) scenario_docs 3 =
     [mk_item (sample_doc ''e'' 20 5) (sample_phrase ''e'' 5),
      mk_item (sample_doc ''a'' 60 5) (sample_phrase ''a'' 5),
      mk_item (sample_doc ''c'' 40 3) (sample_phrase ''c'' 3)]"
  unfolding select_items_def randomizedItems_def Let_def grouped_scenario keys_scenario
  by (simp add: shuffle_group_def js_sort_def cmp_repetitions_def sample_item_repetitions
      swap_def object_keys_def is_array_index_def cmp_desc_def group_of_def)

section \<open>Properties of the scheduler\<close>

subsection \<open>Fields after each operation\<close>

lemma sched_lookup:
  "distinct (map fst al) \<Longrightarrow> ((u, t) \<in> set al) = (map_of al u = Some t)"
  by (simp add: map_of_eq_Some_iff)

lemma timers_match_iff:
  "timers_match s \<longleftrightarrow>
     distinct (map fst (timers s)) \<and>
     (\<forall>t \<in> set (timers s). fst t < next_timer s) \<and>
     distinct (map fst (scheduledChallenges s)) \<and>
     (\<forall>u t. map_of (scheduledChallenges s) u = Some t \<longrightarrow> u \<in> set (activeUsers s)) \<and>
     (\<forall>u t. (map_of (scheduledChallenges s) u = Some t) = (\<exists>d. (t, d, u) \<in> set (timers s)))"
  (is "?L \<longleftrightarrow> ?R")
proof
  assume l: ?L
  then have d: "distinct (map fst (scheduledChallenges s))"
    and eq: "set (scheduledChallenges s) = (\<lambda>t. (snd (snd t), fst t)) ` set (timers s)"
    and sub: "fst ` set (scheduledChallenges s) \<subseteq> set (activeUsers s)"
    unfolding timers_match_def by blast+
  have a: "u \<in> set (activeUsers s)" if "map_of (scheduledChallenges s) u = Some t" for u t
    using that sub by (auto dest!: map_of_SomeD)
  have b: "(map_of (scheduledChallenges s) u = Some t) = (\<exists>d. (t, d, u) \<in> set (timers s))" for u t
    unfolding sched_lookup [OF d, symmetric] eq by force
  from l a b show ?R
    unfolding timers_match_def by blast
next
  assume r: ?R
  then have d: "distinct (map fst (scheduledChallenges s))"
    by simp
  have sub: "fst ` set (scheduledChallenges s) \<subseteq> set (activeUsers s)"
    using r sched_lookup [OF d] by fastforce
  have eq: "set (scheduledChallenges s) = (\<lambda>t. (snd (snd t), fst t)) ` set (timers s)"
  proof (rule set_eqI)
    fix p :: "userId \<times> nat"
    obtain u t where p: "p = (u, t)" by (cases p)
    have "(p \<in> set (scheduledChallenges s)) = (\<exists>d. (t, d, u) \<in> set (timers s))"
      using r sched_lookup [OF d] p by simp
    also have "\<dots> = (p \<in> (\<lambda>t. (snd (snd t), fst t)) ` set (timers s))"
      unfolding p by force
    finally show "(p \<in> set (scheduledChallenges s)) = (p \<in> (\<lambda>t. (snd (snd t), fst t)) ` set (timers s))" .
  qed
  from r sub eq show ?L
    unfolding timers_match_def by blast
qed


lemma timers_matchI:
  "distinct (map fst (timers s)) \<Longrightarrow>
   (\<And>t. t \<in> set (timers s) \<Longrightarrow> fst t < next_timer s) \<Longrightarrow>
   distinct (map fst (scheduledChallenges s)) \<Longrightarrow>
   (\<And>u t. map_of (scheduledChallenges s) u = Some t \<Longrightarrow> u \<in> set (activeUsers s)) \<Longrightarrow>
   (\<And>u t. (map_of (scheduledChallenges s) u = Some t) = (\<exists>d. (t, d, u) \<in> set (timers s))) \<Longrightarrow>
   timers_match s"
  unfolding timers_match_iff by blast

lemma timers_matchD:
  assumes "timers_match s"
  shows "distinct (map fst (timers s))"
    and "t \<in> set (timers s) \<Longrightarrow> fst t < next_timer s"
    and "distinct (map fst (scheduledChallenges s))"
    and "map_of (scheduledChallenges s) u = Some n \<Longrightarrow> u \<in> set (activeUsers s)"
    and "(map_of (scheduledChallenges s) u = Some n) = (\<exists>d. (n, d, u) \<in> set (timers s))"
  using assms unfolding timers_match_iff by blast+

lemma timers_match_new: "timers_match new_scheduler"
  by (simp add: timers_match_def new_scheduler_def)

lemma scheduleNextChallenge_fields:
  "activeUsers (scheduleNextChallenge d u s) = activeUsers s"
  "running (scheduleNextChallenge d u s) = running s"
  "next_timer (scheduleNextChallenge d u s) = Suc (next_timer s)"
  "scheduledChallenges (scheduleNextChallenge d u s) = AList.update u (next_timer s) (scheduledChallenges s)"
  "timers (scheduleNextChallenge d u s) =
     (case map_of (scheduledChallenges s) u of
        None \<Rightarrow> timers s
      | Some t \<Rightarrow> filter (\<lambda>x. fst x \<noteq> t) (timers s)) @ [(next_timer s, d, u)]"
  by (simp_all add: scheduleNextChallenge_def setTimeout_def clearTimeout_def Let_def split: option.splits)

lemma scheduleNextChallenge_match:
  assumes m: "timers_match s" and a: "u \<in> set (activeUsers s)"
  shows "timers_match (scheduleNextChallenge d u s)"
proof (rule timers_matchI)
  let ?s = "scheduleNextChallenge d u s"
  let ?old = "case map_of (scheduledChallenges s) u of
        None \<Rightarrow> timers s | Some t \<Rightarrow> filter (\<lambda>x. fst x \<noteq> t) (timers s)"
  have sub: "set ?old \<subseteq> set (timers s)"
    by (auto split: option.splits)
  have dist: "distinct (map fst ?old)"
    using timers_matchD(1) [OF m] by (simp add: distinct_map_filter split: option.splits)
  have fresh: "\<forall>x \<in> set ?old. fst x < next_timer s"
    using sub timers_matchD(2) [OF m] by blast
  have "next_timer s \<notin> fst ` set ?old"
    using fresh by fastforce
  then show "distinct (map fst (timers ?s))"
    using dist by (simp add: scheduleNextChallenge_fields)
  show "fst t < next_timer ?s" if "t \<in> set (timers ?s)" for t
  proof (cases "t \<in> set ?old")
    case True
    with fresh show ?thesis
      by (simp add: scheduleNextChallenge_fields less_Suc_eq)
  next
    case False
    with that have "t = (next_timer s, d, u)"
      by (simp add: scheduleNextChallenge_fields)
    then show ?thesis
      by (simp add: scheduleNextChallenge_fields)
  qed
  show "distinct (map fst (scheduledChallenges ?s))"
    using timers_matchD(3) [OF m] by (simp add: scheduleNextChallenge_fields distinct_update)
  show "u' \<in> set (activeUsers ?s)" if "map_of (scheduledChallenges ?s) u' = Some t" for u' t
    using that a timers_matchD(4) [OF m]
    by (auto simp: scheduleNextChallenge_fields update_conv' split: if_splits)
  show "(map_of (scheduledChallenges ?s) u' = Some t) = (\<exists>d'. (t, d', u') \<in> set (timers ?s))" for u' t
  proof (cases "u' = u")
    case True
    have "\<not> (\<exists>d'. (t, d', u) \<in> set ?old)"
    proof
      assume "\<exists>d'. (t, d', u) \<in> set ?old"
      then obtain d' where in_old: "(t, d', u) \<in> set ?old" ..
      then have "(t, d', u) \<in> set (timers s)"
        using sub by blast
      then have "map_of (scheduledChallenges s) u = Some t"
        using timers_matchD(5) [OF m] by blast
      with in_old show False
        by simp
    qed
    moreover have "t \<noteq> next_timer s" if "(t, d', u) \<in> set ?old" for d'
      using fresh that by fastforce
    ultimately show ?thesis
      using True by (auto simp: scheduleNextChallenge_fields update_conv')
  next
    case False
    have "(\<exists>d'. (t, d', u') \<in> set ?old) = (\<exists>d'. (t, d', u') \<in> set (timers s))"
    proof (cases "map_of (scheduledChallenges s) u")
      case None
      then show ?thesis by simp
    next
      case (Some t0)
      have "t \<noteq> t0" if "(t, d', u') \<in> set (timers s)" for d'
      proof
        assume "t = t0"
        with Some have "\<exists>d0. (t, d0, u) \<in> set (timers s)"
          using timers_matchD(5) [OF m] by blast
        then obtain d0 where "(t, d0, u) \<in> set (timers s)" ..
        with that timers_matchD(1) [OF m] have "(d', u') = (d0, u)"
          by (meson eq_key_imp_eq_value)
        with False show False by simp
      qed
      then show ?thesis
        by (auto simp: Some)
    qed
    with False show ?thesis
      using timers_matchD(5) [OF m, of u' t] by (auto simp: scheduleNextChallenge_fields update_conv')
  qed
qed


lemma cleared_timers:
  assumes m: "timers_match s"
  shows "set (case map_of (scheduledChallenges s) u of
                None \<Rightarrow> timers s
              | Some t \<Rightarrow> filter (\<lambda>x. fst x \<noteq> t) (timers s)) =
         {x \<in> set (timers s). snd (snd x) \<noteq> u}"
proof (cases "map_of (scheduledChallenges s) u")
  case None
  have "snd (snd x) \<noteq> u" if "x \<in> set (timers s)" for x
  proof
    assume "snd (snd x) = u"
    with that have "(fst x, fst (snd x), u) \<in> set (timers s)"
      by (metis prod.collapse)
    then have "map_of (scheduledChallenges s) u = Some (fst x)"
      using timers_matchD(5) [OF m] by blast
    with None show False by simp
  qed
  with None show ?thesis by auto
next
  case (Some t0)
  then obtain d0 where t0: "(t0, d0, u) \<in> set (timers s)"
    using timers_matchD(5) [OF m] by blast
  have "(fst x \<noteq> t0) = (snd (snd x) \<noteq> u)" if "x \<in> set (timers s)" for x
  proof
    assume ne: "fst x \<noteq> t0"
    show "snd (snd x) \<noteq> u"
    proof
      assume "snd (snd x) = u"
      with that have "(fst x, fst (snd x), u) \<in> set (timers s)"
        by (metis prod.collapse)
      then have "map_of (scheduledChallenges s) u = Some (fst x)"
        using timers_matchD(5) [OF m] by blast
      with Some ne show False by simp
    qed
  next
    assume ne: "snd (snd x) \<noteq> u"
    show "fst x \<noteq> t0"
    proof
      assume "fst x = t0"
      with that have "(t0, snd x) \<in> set (timers s)"
        by (metis prod.collapse)
      with t0 timers_matchD(1) [OF m] have "snd x = (d0, u)"
        by (meson eq_key_imp_eq_value)
      with ne show False by simp
    qed
  qed
  with Some show ?thesis by auto
qed

lemma delete_absent: "map_of al k = None \<Longrightarrow> AList.delete k al = al"
  by (induction al) (auto simp: AList.delete_eq split: if_splits)

lemma removeUser_fields:
  "u \<in> set (activeUsers s) \<Longrightarrow> activeUsers (removeUser u s) = removeAll u (activeUsers s)"
  "u \<in> set (activeUsers s) \<Longrightarrow>
     scheduledChallenges (removeUser u s) = AList.delete u (scheduledChallenges s)"
  "u \<in> set (activeUsers s) \<Longrightarrow>
     timers (removeUser u s) =
       (case map_of (scheduledChallenges s) u of
          None \<Rightarrow> timers s
        | Some t \<Rightarrow> filter (\<lambda>x. fst x \<noteq> t) (timers s))"
  "next_timer (removeUser u s) = next_timer s"
  "running (removeUser u s) = running s"
  "u \<notin> set (activeUsers s) \<Longrightarrow> removeUser u s = s"
  by (simp_all add: removeUser_def clearTimeout_def Let_def delete_absent split: option.splits)

lemma removeUser_match:
  assumes m: "timers_match s"
  shows "timers_match (removeUser u s)"
proof (cases "u \<in> set (activeUsers s)")
  case False
  with m show ?thesis by (simp add: removeUser_fields)
next
  case True
  let ?s = "removeUser u s"
  note f = removeUser_fields(1-3) [OF True] removeUser_fields(4)
  have ts: "set (timers ?s) = {x \<in> set (timers s). snd (snd x) \<noteq> u}"
    unfolding f by (rule cleared_timers [OF m])
  show ?thesis
  proof (rule timers_matchI)
    show "distinct (map fst (timers ?s))"
      using timers_matchD(1) [OF m] unfolding f by (simp add: distinct_map_filter split: option.splits)
    show "fst t < next_timer ?s" if "t \<in> set (timers ?s)" for t
    proof -
      from that ts have "t \<in> set (timers s)"
        by blast
      then show ?thesis
        using timers_matchD(2) [OF m] by (simp add: removeUser_fields(4))
    qed
    show "distinct (map fst (scheduledChallenges ?s))"
      using timers_matchD(3) [OF m] by (simp add: f distinct_delete)
    show "u' \<in> set (activeUsers ?s)" if "map_of (scheduledChallenges ?s) u' = Some t" for u' t
      using that timers_matchD(4) [OF m, of u' t] by (auto simp: f delete_conv' split: if_splits)
    show "(map_of (scheduledChallenges ?s) u' = Some t) = (\<exists>d'. (t, d', u') \<in> set (timers ?s))" for u' t
      using timers_matchD(5) [OF m, of u' t] by (auto simp: ts f(2) delete_conv')
  qed
qed

lemma addUser_match: "timers_match s \<Longrightarrow> timers_match (addUser d u s)"
proof -
  assume m: "timers_match s"
  have "timers_match (s\<lparr>activeUsers := activeUsers s @ [u]\<rparr>)"
    using m unfolding timers_match_iff by auto
  then have "timers_match (scheduleNextChallenge d u (s\<lparr>activeUsers := activeUsers s @ [u]\<rparr>))"
    by (rule scheduleNextChallenge_match) simp
  with m show ?thesis
    by (simp add: addUser_def)
qed

lemma fold_schedule:
  "timers_match s \<Longrightarrow> set us \<subseteq> set (activeUsers s) \<Longrightarrow>
   timers_match (fold (\<lambda>u. scheduleNextChallenge (delays u) u) us s) \<and>
   activeUsers (fold (\<lambda>u. scheduleNextChallenge (delays u) u) us s) = activeUsers s \<and>
   fst ` set (scheduledChallenges (fold (\<lambda>u. scheduleNextChallenge (delays u) u) us s)) =
     fst ` set (scheduledChallenges s) \<union> set us"
proof (induction us arbitrary: s)
  case Nil
  then show ?case by simp
next
  case (Cons u us)
  let ?s = "scheduleNextChallenge (delays u) u s"
  have m: "timers_match ?s"
    using Cons.prems by (simp add: scheduleNextChallenge_match)
  have a: "set us \<subseteq> set (activeUsers ?s)"
    using Cons.prems by (simp add: scheduleNextChallenge_fields)
  from Cons.IH [OF m a] show ?case
    by (auto simp: scheduleNextChallenge_fields dom_update)
qed

lemma fold_clearTimeout:
  "fold clearTimeout ids s = s\<lparr>timers := filter (\<lambda>t. fst t \<notin> set ids) (timers s)\<rparr>"
proof (induction ids arbitrary: s)
  case Nil
  show ?case by simp
next
  case (Cons i ids)
  have "fold clearTimeout (i # ids) s =
        (clearTimeout i s)\<lparr>timers := filter (\<lambda>t. fst t \<notin> set ids) (timers (clearTimeout i s))\<rparr>"
    by (simp add: Cons.IH)
  also have "\<dots> = s\<lparr>timers := filter (\<lambda>t. fst t \<notin> set ids) (filter (\<lambda>t. fst t \<noteq> i) (timers s))\<rparr>"
    by (simp add: clearTimeout_def)
  also have "filter (\<lambda>t. fst t \<notin> set ids) (filter (\<lambda>t. fst t \<noteq> i) (timers s)) =
        filter (\<lambda>t. fst t \<notin> set (i # ids)) (timers s)"
    by (auto intro: filter_cong)
  finally show ?case .
qed

lemma stop_fields:
  assumes m: "timers_match s"
  shows "stop s = s\<lparr>timers := [], scheduledChallenges := []\<rparr>"
proof -
  have "fst t \<in> snd ` set (scheduledChallenges s)" if "t \<in> set (timers s)" for t
  proof -
    from that have "(fst t, fst (snd t), snd (snd t)) \<in> set (timers s)"
      by simp
    then have "map_of (scheduledChallenges s) (snd (snd t)) = Some (fst t)"
      using timers_matchD(5) [OF m] by blast
    then have "(snd (snd t), fst t) \<in> set (scheduledChallenges s)"
      by (rule map_of_SomeD)
    then show ?thesis
      by force
  qed
  then have "filter (\<lambda>t. fst t \<notin> set (map snd (scheduledChallenges s))) (timers s) = []"
    by (simp add: filter_empty_conv)
  then show ?thesis
    by (simp add: stop_def fold_clearTimeout)
qed

lemma stop_match: "timers_match s \<Longrightarrow> timers_match (stop s)"
  by (simp add: stop_fields) (simp add: timers_match_def)


subsection \<open>Counting a user's timers\<close>

lemma filter_key:
  "distinct (map fst xs) \<Longrightarrow> (t, v) \<in> set xs \<Longrightarrow> filter (\<lambda>y. fst y = t) xs = [(t, v)]"
proof (induction xs)
  case Nil
  then show ?case by simp
next
  case (Cons x xs)
  show ?case
  proof (cases "x = (t, v)")
    case True
    with Cons.prems(1) have "t \<notin> fst ` set xs"
      by simp
    then have "\<forall>y \<in> set xs. fst y \<noteq> t"
      by force
    then have "filter (\<lambda>y. fst y = t) xs = []"
      by (simp add: filter_empty_conv)
    with True show ?thesis by simp
  next
    case False
    with Cons.prems have in_xs: "(t, v) \<in> set xs" and d: "distinct (map fst xs)"
      by simp_all
    have "t \<in> fst ` set xs"
      using in_xs by force
    with Cons.prems(1) have "fst x \<noteq> t"
      by auto
    with Cons.IH [OF d in_xs] show ?thesis by simp
  qed
qed

lemma timers_of_count:
  assumes m: "timers_match s"
  shows "length (timers_of s u) = (if u \<in> fst ` set (scheduledChallenges s) then 1 else 0)"
proof (cases "map_of (scheduledChallenges s) u")
  case None
  then have no: "u \<notin> fst ` set (scheduledChallenges s)"
    by (simp add: map_of_eq_None_iff)
  have "snd (snd x) \<noteq> u" if "x \<in> set (timers s)" for x
  proof
    assume "snd (snd x) = u"
    with that have "(fst x, fst (snd x), u) \<in> set (timers s)"
      by (metis prod.collapse)
    then have "map_of (scheduledChallenges s) u = Some (fst x)"
      using timers_matchD(5) [OF m] by blast
    with None show False by simp
  qed
  then have "timers_of s u = []"
    by (simp add: timers_of_def filter_empty_conv)
  with no show ?thesis by simp
next
  case (Some t)
  then have yes: "u \<in> fst ` set (scheduledChallenges s)"
    by (metis map_of_eq_None_iff option.distinct(1))
  from Some obtain d where t: "(t, d, u) \<in> set (timers s)"
    using timers_matchD(5) [OF m] by blast
  have same: "\<forall>x \<in> set (timers s). (snd (snd x) = u) = (fst x = t)"
  proof (intro ballI iffI)
    fix x
    assume that: "x \<in> set (timers s)"
    assume "snd (snd x) = u"
    with that have "(fst x, fst (snd x), u) \<in> set (timers s)"
      by (metis prod.collapse)
    then have "map_of (scheduledChallenges s) u = Some (fst x)"
      using timers_matchD(5) [OF m] by blast
    with Some show "fst x = t" by simp
  next
    fix x
    assume that: "x \<in> set (timers s)"
    assume "fst x = t"
    with that have "(t, snd x) \<in> set (timers s)"
      by (metis prod.collapse)
    with t timers_matchD(1) [OF m] have "snd x = (d, u)"
      by (meson eq_key_imp_eq_value)
    then show "snd (snd x) = u" by simp
  qed
  have "timers_of s u = filter (\<lambda>y. fst y = t) (timers s)"
    unfolding timers_of_def by (rule filter_cong [OF refl]) (use same in blast)
  also have "\<dots> = [(t, d, u)]"
    using timers_matchD(1) [OF m] t by (rule filter_key)
  finally show ?thesis
    using yes by simp
qed

lemma inactive_no_timers:
  assumes m: "timers_match s" and u: "u \<notin> set (activeUsers s)"
  shows "timers_of s u = []"
proof -
  have "u \<notin> fst ` set (scheduledChallenges s)"
    using m u unfolding timers_match_def by blast
  with timers_of_count [OF m, of u] show ?thesis
    by simp
qed

subsection \<open>JavaScript numbers\<close>

lemma bit_length_le: "n < 2 ^ w \<Longrightarrow> bit_length n \<le> w"
proof (induction n arbitrary: w rule: bit_length.induct)
  case (1 n)
  show ?case
  proof (cases "n = 0")
    case True
    then show ?thesis by (simp add: bit_length.simps)
  next
    case False
    with "1.prems" obtain w' where w: "w = Suc w'"
      by (cases w) auto
    with "1.prems" have "n div 2 < 2 ^ w'"
      by auto
    from "1.IH" [OF False this] False w show ?thesis
      by (simp add: bit_length.simps [of n])
  qed
qed

lemma bit_length_bounds: "0 < n \<Longrightarrow> 2 ^ (bit_length n - 1) \<le> n \<and> n < 2 ^ bit_length n"
proof (induction n rule: bit_length.induct)
  case (1 n)
  show ?case
  proof (cases "n div 2 = 0")
    case True
    with "1.prems" have "n = 1"
      by (auto simp: div_eq_0_iff)
    then show ?thesis
      by (simp add: bit_length.simps [of "Suc 0"] bit_length.simps [of 0])
  next
    case False
    with "1.IH" "1.prems" have ih: "2 ^ (bit_length (n div 2) - 1) \<le> n div 2" "n div 2 < 2 ^ bit_length (n div 2)"
      by auto
    have pos: "0 < bit_length (n div 2)"
      using False by (simp add: bit_length.simps [of "n div 2"])
    have eq: "bit_length n = Suc (bit_length (n div 2))"
      using "1.prems" by (simp add: bit_length.simps [of n])
    have "2 ^ (bit_length n - 1) = 2 * 2 ^ (bit_length (n div 2) - 1)"
      using pos by (cases "bit_length (n div 2)") (simp_all add: eq)
    also have "\<dots> \<le> 2 * (n div 2)"
      using ih(1) by simp
    also have "\<dots> \<le> n"
      by simp
    finally have lo: "2 ^ (bit_length n - 1) \<le> n" .
    have "n < 2 * (n div 2) + 2"
      by presburger
    also have "\<dots> \<le> 2 * 2 ^ bit_length (n div 2)"
      using ih(2) by simp
    finally have "n < 2 ^ bit_length n"
      by (simp add: eq)
    with lo show ?thesis by simp
  qed
qed

lemma round_even_bounds: "\<lfloor>q\<rfloor> \<le> round_even q \<and> round_even q \<le> \<lceil>q\<rceil>"
proof -
  have "\<lfloor>q\<rfloor> + 1 \<le> \<lceil>q\<rceil>" if "1 / 2 \<le> q - of_int \<lfloor>q\<rfloor>"
  proof -
    from that have "of_int \<lfloor>q\<rfloor> < q" by simp
    then have "\<lfloor>q\<rfloor> < \<lceil>q\<rceil>"
      by (simp add: less_ceiling_iff)
    then show ?thesis by simp
  qed
  moreover have "\<lfloor>q\<rfloor> \<le> \<lceil>q\<rceil>"
    by (rule floor_le_ceiling)
  ultimately show ?thesis
    by (auto simp: round_even_def Let_def)
qed

lemma round_even_int: "round_even (of_int n) = n"
  by (simp add: round_even_def)

lemma ulp_small:
  assumes "\<bar>x\<bar> < 2 ^ 53"
  shows "\<exists>n. ulp x = 1 / 2 ^ n"
proof -
  have "exponent x \<le> 52"
  proof (cases "1 \<le> \<bar>x\<bar>")
    case True
    have "nat \<lfloor>\<bar>x\<bar>\<rfloor> < 2 ^ 53"
      using assms by (simp add: nat_less_iff floor_less_iff)
    from bit_length_le [OF this] True show ?thesis
      by (simp add: exponent_def)
  next
    case False
    then show ?thesis by (simp add: exponent_def)
  qed
  then show ?thesis
    by (cases "exponent x = 52") (auto simp: ulp_def Let_def intro: exI [of _ 0])
qed

lemma round64_between:
  assumes x: "\<bar>x\<bar> < 2 ^ 53" and a: "of_int a \<le> x" and b: "x \<le> of_int b"
  shows "of_int a \<le> round64 x \<and> round64 x \<le> of_int b"
proof (cases "x = 0")
  case True
  with a b show ?thesis by (simp add: round64_def)
next
  case False
  from ulp_small [OF x] obtain n where u: "ulp x = 1 / 2 ^ n" ..
  have q: "x / ulp x = x * 2 ^ n"
    by (simp add: u)
  have "of_int (a * 2 ^ n) \<le> x * 2 ^ n"
    using a by simp
  then have "a * 2 ^ n \<le> \<lfloor>x * 2 ^ n\<rfloor>"
    by (simp add: le_floor_iff)
  with round_even_bounds [of "x * 2 ^ n"] have lo: "a * 2 ^ n \<le> round_even (x * 2 ^ n)"
    by linarith
  have "x * 2 ^ n \<le> of_int (b * 2 ^ n)"
    using b by simp
  then have "\<lceil>x * 2 ^ n\<rceil> \<le> b * 2 ^ n"
    by (simp add: ceiling_le_iff)
  with round_even_bounds [of "x * 2 ^ n"] have hi: "round_even (x * 2 ^ n) \<le> b * 2 ^ n"
    by linarith
  have "of_int a \<le> of_int (round_even (x * 2 ^ n)) / (2 ^ n :: real)"
  proof -
    from lo have "(of_int (a * 2 ^ n) :: real) \<le> of_int (round_even (x * 2 ^ n))"
      by (simp only: of_int_le_iff)
    then show ?thesis
      by (simp add: pos_le_divide_eq)
  qed
  moreover have "of_int (round_even (x * 2 ^ n)) / (2 ^ n :: real) \<le> of_int b"
  proof -
    from hi have "(of_int (round_even (x * 2 ^ n)) :: real) \<le> of_int (b * 2 ^ n)"
      by (simp only: of_int_le_iff)
    then show ?thesis
      by (simp add: pos_divide_le_eq)
  qed
  ultimately show ?thesis
    using False by (simp add: round64_def q u)
qed

lemma round64_int:
  assumes "\<bar>of_int n :: real\<bar> < 2 ^ 53"
  shows "round64 (of_int n) = of_int n"
  using round64_between [OF assms, of n n] by simp




lemma round_even_nearest: "\<bar>of_int (round_even q) - q\<bar> \<le> 1 / 2"
  unfolding round_even_def Let_def by (auto simp: abs_le_iff)

lemma exponent_bounds:
  assumes "x \<noteq> 0"
  shows "(2::real) powr of_int (exponent x) \<le> \<bar>x\<bar> \<and> \<bar>x\<bar> < (2::real) powr of_int (exponent x + 1)"
proof (cases "1 \<le> \<bar>x\<bar>")
  case True
  define n where "n = nat \<lfloor>\<bar>x\<bar>\<rfloor>"
  have n: "0 < n" "real n \<le> \<bar>x\<bar>" "\<bar>x\<bar> < real n + 1"
    using True by (auto simp: n_def)
  have e: "exponent x = int (bit_length n) - 1"
    using True by (simp add: exponent_def n_def)
  from bit_length_bounds [OF n(1)] have lo: "2 ^ (bit_length n - 1) \<le> n" and hi: "n < 2 ^ bit_length n"
    by simp_all
  have pos: "0 < bit_length n"
    using n(1) by (simp add: bit_length.simps [of n])
  have "(2::real) powr of_int (exponent x) = 2 ^ (bit_length n - 1)"
    using pos by (simp add: e powr_realpow [symmetric] of_nat_diff)
  also have "\<dots> \<le> real n"
    using lo by (metis of_nat_le_iff of_nat_numeral of_nat_power)
  finally have 1: "(2::real) powr of_int (exponent x) \<le> \<bar>x\<bar>"
    using n(2) by simp
  have "real n + 1 \<le> (2::real) ^ bit_length n"
    using hi by (metis Suc_leI of_nat_Suc of_nat_le_iff of_nat_numeral of_nat_power add.commute)
  also have "\<dots> = (2::real) powr of_int (exponent x + 1)"
    by (simp add: e powr_realpow [symmetric])
  finally show ?thesis
    using 1 n(3) by simp
next
  case False
  define y where "y = 1 / \<bar>x\<bar>"
  have y: "1 < y"
    using False assms by (simp add: y_def)
  define m where "m = nat (\<lceil>y\<rceil> - 1)"
  have m: "0 < m" "real m < y" "y \<le> real m + 1"
    using y by (auto simp: m_def) linarith
  have e: "exponent x = - int (bit_length m)"
    using False by (simp add: exponent_def m_def y_def)
  from bit_length_bounds [OF m(1)] have lo: "2 ^ (bit_length m - 1) \<le> m" and hi: "m < 2 ^ bit_length m"
    by simp_all
  have pos: "0 < bit_length m"
    using m(1) by (simp add: bit_length.simps [of m])
  have "real m + 1 \<le> (2::real) ^ bit_length m"
    using hi by (metis Suc_leI of_nat_Suc of_nat_le_iff of_nat_numeral of_nat_power add.commute)
  with m(3) have "y \<le> 2 ^ bit_length m"
    by simp
  then have "1 / 2 ^ bit_length m \<le> \<bar>x\<bar>"
    using assms by (simp add: y_def field_simps)
  moreover have "(2::real) powr of_int (exponent x) = 1 / 2 ^ bit_length m"
    by (simp add: e powr_minus powr_realpow [symmetric] divide_inverse)
  ultimately have 1: "(2::real) powr of_int (exponent x) \<le> \<bar>x\<bar>"
    by simp
  have "(2::real) ^ (bit_length m - 1) \<le> real m"
    using lo by (metis of_nat_le_iff of_nat_numeral of_nat_power)
  with m(2) have "2 ^ (bit_length m - 1) < y"
    by linarith
  then have "\<bar>x\<bar> < 1 / 2 ^ (bit_length m - 1)"
    using assms by (simp add: y_def field_simps)
  moreover have "(2::real) powr of_int (exponent x + 1) = 1 / 2 ^ (bit_length m - 1)"
  proof -
    have "exponent x + 1 = - int (bit_length m - 1)"
      using pos by (simp add: e of_nat_diff)
    then show ?thesis
      by (simp add: powr_minus powr_realpow [symmetric] divide_inverse del: of_nat_diff)
  qed
  ultimately show ?thesis
    using 1 by simp
qed

lemma round64_numeral:
  "(numeral w :: int) < 2 ^ 53 \<Longrightarrow> round64 (numeral w) = numeral w"
  using round64_int [of "numeral w"] by simp

lemma round64_one: "round64 1 = 1"
  using round64_int [of 1] by simp

lemma delay_half: "nextChallengeDelay (1 / 2) = 259200000"
proof -
  have "nextChallengeDelay (1 / 2) = js_mul (js_mul (js_mul (js_mul (js_add 2 (round64 (of_int 1))) 24) 60) 60) 1000"
    by (simp add: nextChallengeDelay_def js_mul_def [of "1 / 2"])
  also have "\<dots> = js_mul (js_mul (js_mul (js_mul (round64 (of_int 3)) 24) 60) 60) 1000"
    by (simp add: round64_numeral round64_one js_add_def)
  also have "\<dots> = js_mul (js_mul (js_mul (round64 (of_int 72)) 60) 60) 1000"
    by (simp add: round64_numeral js_mul_def)
  also have "\<dots> = js_mul (js_mul (round64 (of_int 4320)) 60) 1000"
    by (simp add: round64_numeral js_mul_def)
  also have "\<dots> = js_mul (round64 (of_int 259200)) 1000"
    by (simp add: round64_numeral js_mul_def)
  also have "\<dots> = round64 (of_int 259200000)"
    by (simp add: round64_numeral js_mul_def)
  also have "\<dots> = 259200000"
    by (simp add: round64_numeral)
  finally show ?thesis .
qed





subsection \<open>Resuming after a firing\<close>

lemma sendChallenge_fields:
  "timers (sendChallenge shouldSend dispatch r userId s) =
     timers s @ [(next_timer s,
                  if handling_throws shouldSend dispatch then retryDelay
                  else nextChallengeDelay r,
                  userId)]"
  "scheduledChallenges (sendChallenge shouldSend dispatch r userId s) =
     AList.update userId (next_timer s) (scheduledChallenges s)"
  "running (sendChallenge shouldSend dispatch r userId s) = running s"
  "activeUsers (sendChallenge shouldSend dispatch r userId s) = activeUsers s"
  "next_timer (sendChallenge shouldSend dispatch r userId s) = Suc (next_timer s)"
  by (cases shouldSend; cases dispatch;
      simp add: sendChallenge_def setTimeout_def Let_def)+


subsection \<open>Calls and completed firings\<close>

lemma call_match:
  assumes c: "is_call ev" and m: "timers_match s"
  shows "timers_match (step ev s)"
proof (cases ev)
  case (AddUser u d)
  then show ?thesis by (simp add: addUser_match [OF m])
next
  case (RemoveUser u)
  then show ?thesis by (simp add: removeUser_match [OF m])
next
  case (Start delays)
  with fold_schedule [OF m subset_refl, of delays] show ?thesis
    by (simp add: start_def)
next
  case Stop
  then show ?thesis by (simp add: stop_match [OF m])
next
  case (Fire t)
  with c show ?thesis by simp
next
  case (Resume u sh di r)
  with c show ?thesis by simp
qed

lemma fold_schedule_running:
  "running (fold (\<lambda>u. scheduleNextChallenge (delays u) u) us s) = running s"
  by (induction us arbitrary: s) (simp_all add: scheduleNextChallenge_fields)

lemma call_running:
  assumes c: "is_call ev" and m: "timers_match s"
  shows "running (step ev s) = running s"
proof (cases ev)
  case (AddUser u d)
  then show ?thesis by (simp add: addUser_def scheduleNextChallenge_fields)
next
  case (RemoveUser u)
  then show ?thesis by (simp add: removeUser_fields)
next
  case (Start delays)
  then show ?thesis by (simp add: start_def fold_schedule_running)
next
  case Stop
  then show ?thesis by (simp add: stop_fields [OF m])
next
  case (Fire t)
  with c show ?thesis by simp
next
  case (Resume u sh di r)
  with c show ?thesis by simp
qed

text \<open>A firing whose handler returns before anything else happens reschedules the user:
  it clears the fired timer and arms the next one.\<close>

lemma completed_firing:
  assumes m: "timers_match s" and q: "running s = []"
    and t: "map_of (timers s) t = Some (d, u)"
  shows "resume u sh di r (fire t s) =
     scheduleNextChallenge (if handling_throws sh di then retryDelay else nextChallengeDelay r) u s"
proof -
  from t have "(t, d, u) \<in> set (timers s)"
    by (rule map_of_SomeD)
  then have k: "map_of (scheduledChallenges s) u = Some t"
    using timers_matchD(5) [OF m] by blast
  have f: "fire t s = s\<lparr>timers := filter (\<lambda>x. fst x \<noteq> t) (timers s), running := [u]\<rparr>"
    by (simp add: fire_def t clearTimeout_def q)
  show ?thesis
  proof (rule scheduler.equality)
    show "timers (resume u sh di r (fire t s)) =
        timers (scheduleNextChallenge (if handling_throws sh di then retryDelay else nextChallengeDelay r) u s)"
      by (simp add: resume_def f sendChallenge_fields scheduleNextChallenge_fields k)
  qed (simp_all add: resume_def f sendChallenge_fields scheduleNextChallenge_fields q)
qed

text \<open>What holds between events of such a run: the timers match the map, no
  \<open>sendChallenge\<close> is suspended, the idle users are active, and the map's keys are the
  active users that are not idle.\<close>

lemma quiet_call:
  assumes c: "is_call ev" and m: "timers_match s" and q: "running s = []"
    and i: "set idle \<subseteq> set (activeUsers s)"
    and k: "fst ` set (scheduledChallenges s) = set (activeUsers s) - set idle"
  shows "timers_match (step ev s) \<and> running (step ev s) = [] \<and>
         set (idle_step ev s idle) \<subseteq> set (activeUsers (step ev s)) \<and>
         fst ` set (scheduledChallenges (step ev s)) =
           set (activeUsers (step ev s)) - set (idle_step ev s idle)"
proof -
  have 1: "timers_match (step ev s)"
    by (rule call_match [OF c m])
  have 2: "running (step ev s) = []"
    using call_running [OF c m] q by simp
  have 3: "set (idle_step ev s idle) \<subseteq> set (activeUsers (step ev s)) \<and>
         fst ` set (scheduledChallenges (step ev s)) =
           set (activeUsers (step ev s)) - set (idle_step ev s idle)"
  proof (cases ev)
    case (AddUser u d)
    show ?thesis
    proof (cases "u \<in> set (activeUsers s)")
      case True
      with i k show ?thesis
        by (simp add: AddUser addUser_def)
    next
      case False
      with i have "u \<notin> set idle"
        by blast
      with False i k show ?thesis
        by (auto simp: AddUser addUser_def scheduleNextChallenge_fields dom_update)
    qed
  next
    case (RemoveUser u)
    show ?thesis
    proof (cases "u \<in> set (activeUsers s)")
      case True
      have "fst ` set (AList.delete u (scheduledChallenges s)) = fst ` set (scheduledChallenges s) - {u}"
        by (metis delete_keys list.set_map set_removeAll)
      with i k show ?thesis
        by (auto simp: RemoveUser removeUser_fields(1,2) [OF True])
    next
      case False
      with i have "u \<notin> set idle"
        by blast
      with False i k show ?thesis
        by (simp add: RemoveUser removeUser_fields(6))
    qed
  next
    case (Start delays)
    from fold_schedule [OF m subset_refl, of delays]
    have "activeUsers (start delays s) = activeUsers s"
      and "fst ` set (scheduledChallenges (start delays s)) =
             fst ` set (scheduledChallenges s) \<union> set (activeUsers s)"
      by (simp_all add: start_def)
    with k show ?thesis
      by (auto simp: Start)
  next
    case Stop
    then show ?thesis
      by (simp add: stop_fields [OF m])
  next
    case (Fire t)
    with c show ?thesis by simp
  next
    case (Resume u sh di r)
    with c show ?thesis by simp
  qed
  from 1 2 3 show ?thesis by blast
qed

lemma quiet_firing:
  assumes m: "timers_match s" and q: "running s = []"
    and i: "set idle \<subseteq> set (activeUsers s)"
    and k: "fst ` set (scheduledChallenges s) = set (activeUsers s) - set idle"
    and t: "map_option snd (map_of (timers s) t) = Some u"
  shows "timers_match (resume u sh di r (fire t s)) \<and> running (resume u sh di r (fire t s)) = [] \<and>
         set idle \<subseteq> set (activeUsers (resume u sh di r (fire t s))) \<and>
         fst ` set (scheduledChallenges (resume u sh di r (fire t s))) =
           set (activeUsers (resume u sh di r (fire t s))) - set idle"
proof -
  from t obtain d where td: "map_of (timers s) t = Some (d, u)"
    by (cases "map_of (timers s) t") auto
  then have "(t, d, u) \<in> set (timers s)"
    by (rule map_of_SomeD)
  then have key: "map_of (scheduledChallenges s) u = Some t"
    using timers_matchD(5) [OF m] by blast
  then have a: "u \<in> set (activeUsers s)"
    by (rule timers_matchD(4) [OF m])
  have "u \<in> fst ` set (scheduledChallenges s)"
    using key by (metis map_of_eq_None_iff option.distinct(1))
  then have same: "insert u (fst ` set (scheduledChallenges s)) = fst ` set (scheduledChallenges s)"
    by blast
  note eq = completed_firing [OF m q td, of sh di r]
  show ?thesis
    unfolding eq using scheduleNextChallenge_match [OF m a] q i k same
    by (simp add: scheduleNextChallenge_fields dom_update)
qed

lemma quiet_run:
  "firings_complete evs s \<Longrightarrow> timers_match s \<Longrightarrow> running s = [] \<Longrightarrow>
   set idle \<subseteq> set (activeUsers s) \<Longrightarrow>
   fst ` set (scheduledChallenges s) = set (activeUsers s) - set idle \<Longrightarrow>
   timers_match (fold step evs s) \<and> running (fold step evs s) = [] \<and>
   set (idle_users evs s idle) \<subseteq> set (activeUsers (fold step evs s)) \<and>
   fst ` set (scheduledChallenges (fold step evs s)) =
     set (activeUsers (fold step evs s)) - set (idle_users evs s idle)"
proof (induction "length evs" arbitrary: evs s idle rule: less_induct)
  case less
  show ?case
  proof (cases evs)
    case Nil
    with less.prems show ?thesis by simp
  next
    case (Cons ev rest)
    show ?thesis
    proof (cases "is_call ev")
      case True
      then have fc: "firings_complete rest (step ev s)"
        using less.prems(1) by (cases ev) (simp_all add: Cons)
      from quiet_call [OF True less.prems(2-5)]
      have st: "timers_match (step ev s)" "running (step ev s) = []"
        "set (idle_step ev s idle) \<subseteq> set (activeUsers (step ev s))"
        "fst ` set (scheduledChallenges (step ev s)) =
           set (activeUsers (step ev s)) - set (idle_step ev s idle)"
        by blast+
      have "length rest < length evs"
        by (simp add: Cons)
      from less.hyps [OF this fc st] show ?thesis
        by (simp add: Cons)
    next
      case False
      with less.prems(1) obtain t u sh di r rest' where
        ev: "ev = Fire t" and rest: "rest = Resume u sh di r # rest'"
        by (cases ev; cases rest; cases "hd rest") (auto simp: Cons)
      from less.prems(1) have t: "map_option snd (map_of (timers s) t) = Some u"
        and fc: "firings_complete rest' (resume u sh di r (fire t s))"
        by (simp_all add: Cons ev rest)
      from quiet_firing [OF less.prems(2-5) t, of sh di r]
      have st: "timers_match (resume u sh di r (fire t s))"
        "running (resume u sh di r (fire t s)) = []"
        "set idle \<subseteq> set (activeUsers (resume u sh di r (fire t s)))"
        "fst ` set (scheduledChallenges (resume u sh di r (fire t s))) =
           set (activeUsers (resume u sh di r (fire t s))) - set idle"
        by blast+
      have "length rest' < length evs"
        by (simp add: Cons rest)
      from less.hyps [OF this fc st] show ?thesis
        by (simp add: Cons ev rest)
    qed
  qed
qed

lemma quiet_run_new:
  assumes "firings_complete evs new_scheduler"
  shows "timers_match (run evs new_scheduler)"
    and "set (idle_users evs new_scheduler []) \<subseteq> set (activeUsers (run evs new_scheduler))"
    and "fst ` set (scheduledChallenges (run evs new_scheduler)) =
      set (activeUsers (run evs new_scheduler)) - set (idle_users evs new_scheduler [])"
proof -
  have "running new_scheduler = []" "set [] \<subseteq> set (activeUsers new_scheduler)"
    "fst ` set (scheduledChallenges new_scheduler) = set (activeUsers new_scheduler) - set []"
    by (simp_all add: new_scheduler_def)
  from quiet_run [OF assms timers_match_new this]
  show "timers_match (run evs new_scheduler)"
    and "set (idle_users evs new_scheduler []) \<subseteq> set (activeUsers (run evs new_scheduler))"
    and "fst ` set (scheduledChallenges (run evs new_scheduler)) =
      set (activeUsers (run evs new_scheduler)) - set (idle_users evs new_scheduler [])"
    by (simp_all add: run_def)
qed

lemma addUser_twice: "addUser d' u (addUser d u s) = addUser d u s"
  by (simp add: addUser_def scheduleNextChallenge_fields)

lemma addUser_active: "u \<in> set (activeUsers (addUser d u s))"
  by (simp add: addUser_def scheduleNextChallenge_fields)

lemma removeUser_inactive: "u \<notin> set (activeUsers (removeUser u s))"
  by (cases "u \<in> set (activeUsers s)") (simp_all add: removeUser_fields)

subsection \<open>Timer ids are fresh in every reachable state\<close>

lemma fresh_schedule:
  "\<forall>t \<in> set (timers s). fst t < next_timer s \<Longrightarrow>
   \<forall>t \<in> set (timers (scheduleNextChallenge d u s)). fst t < next_timer (scheduleNextChallenge d u s)"
  by (auto simp: scheduleNextChallenge_fields less_Suc_eq split: option.splits)

lemma fresh_fold_schedule:
  "\<forall>t \<in> set (timers s). fst t < next_timer s \<Longrightarrow>
   \<forall>t \<in> set (timers (fold (\<lambda>u. scheduleNextChallenge (delays u) u) us s)).
      fst t < next_timer (fold (\<lambda>u. scheduleNextChallenge (delays u) u) us s)"
proof (induction us arbitrary: s)
  case Nil
  then show ?case by simp
next
  case (Cons u us)
  from Cons.IH [OF fresh_schedule [OF Cons.prems]] show ?case
    by simp
qed

lemma fresh_step:
  assumes f: "\<forall>t \<in> set (timers s). fst t < next_timer s"
  shows "\<forall>t \<in> set (timers (step ev s)). fst t < next_timer (step ev s)"
proof (cases ev)
  case (AddUser u d)
  have "\<forall>t \<in> set (timers (s\<lparr>activeUsers := activeUsers s @ [u]\<rparr>)).
      fst t < next_timer (s\<lparr>activeUsers := activeUsers s @ [u]\<rparr>)"
    using f by simp
  from fresh_schedule [OF this] f show ?thesis
    by (simp add: AddUser addUser_def)
next
  case (RemoveUser u)
  with f show ?thesis
    by (auto simp: removeUser_def clearTimeout_def Let_def split: option.splits)
next
  case (Start delays)
  with fresh_fold_schedule [OF f] show ?thesis
    by (simp add: start_def)
next
  case Stop
  with f show ?thesis
    by (simp add: stop_def fold_clearTimeout)
next
  case (Fire t)
  with f show ?thesis
    by (auto simp: fire_def clearTimeout_def split: option.splits)
next
  case (Resume u sh di r)
  with f show ?thesis
    by (auto simp: resume_def sendChallenge_fields less_Suc_eq)
qed

lemma run_fresh:
  "\<forall>t \<in> set (timers (run evs new_scheduler)). fst t < next_timer (run evs new_scheduler)"
proof -
  have "\<forall>t \<in> set (timers s). fst t < next_timer s \<Longrightarrow>
        \<forall>t \<in> set (timers (fold step evs s)). fst t < next_timer (fold step evs s)" for s
    by (induction evs arbitrary: s) (simp_all add: fresh_step)
  then show ?thesis
    by (simp add: run_def new_scheduler_def)
qed

subsection \<open>The timer armed after a firing\<close>






subsection \<open>One timer per user\<close>

lemma sample_events_complete: "firings_complete sample_events new_scheduler"
  by (simp add: sample_events_def addUser_def scheduleNextChallenge_def setTimeout_def
      new_scheduler_def fire_def clearTimeout_def resume_def sendChallenge_def delay_half
      stop_def removeUser_def)

lemma sample_events_state:
  "run sample_events new_scheduler =
     \<lparr> activeUsers = [7, 9], scheduledChallenges = [(9, 3)], timers = [(3, 300, 9)],
       next_timer = 4, running = [] \<rparr>"
  by (simp add: sample_events_def run_def addUser_def scheduleNextChallenge_def setTimeout_def
      new_scheduler_def fire_def clearTimeout_def resume_def sendChallenge_def delay_half
      stop_def removeUser_def)

lemma sample_events_idle: "idle_users sample_events new_scheduler [] = [7]"
  by (simp add: sample_events_def addUser_def scheduleNextChallenge_def setTimeout_def
      new_scheduler_def fire_def clearTimeout_def resume_def sendChallenge_def delay_half
      stop_def removeUser_def)

text \<open>
  Claim C7, amended. For every user and every sequence, on a new scheduler, of calls of
  \<open>addUser\<close>, \<open>removeUser\<close>, \<open>start\<close> and \<open>stop\<close> and of timer firings, each firing
  of a pending timer being followed by the return of its handler before the next call or
  firing: the user has at most one pending timer, none when not active, and exactly one
  when active, except for the users that were active at the last \<open>stop()\<close> and have
  since been neither removed nor rescheduled by \<open>start()\<close>: they are active and have no
  pending timer. A user added after \<open>stop()\<close> has exactly one. From such a state, a second
  \<open>addUser\<close> for the same user changes nothing, and after \<open>addUser\<close> the user has
  exactly one pending timer (unless the user is one of those that \<open>stop()\<close> left without
  a timer); \<open>addUser\<close> followed by \<open>removeUser\<close> leaves the user with no pending timer
  and absent from \<open>getStatus().activeUsers\<close>.
\<close>

theorem firings_keep_one_timer:
  assumes quiet: "firings_complete evs new_scheduler"
  shows "length (timers_of (run evs new_scheduler) u) \<le> 1 \<and>
     (u \<notin> set (activeUsers (run evs new_scheduler)) \<longrightarrow>
        timers_of (run evs new_scheduler) u = []) \<and>
     (u \<in> set (activeUsers (run evs new_scheduler)) \<and>
      u \<notin> set (idle_users evs new_scheduler []) \<longrightarrow>
        length (timers_of (run evs new_scheduler) u) = 1) \<and>
     (u \<in> set (idle_users evs new_scheduler []) \<longrightarrow>
        u \<in> set (activeUsers (run evs new_scheduler)) \<and>
        timers_of (run evs new_scheduler) u = []) \<and>
     addUser d' u (addUser d u (run evs new_scheduler)) = addUser d u (run evs new_scheduler) \<and>
     (u \<notin> set (idle_users evs new_scheduler []) \<longrightarrow>
        length (timers_of (addUser d u (run evs new_scheduler)) u) = 1) \<and>
     timers_of (removeUser u (addUser d u (run evs new_scheduler))) u = [] \<and>
     u \<notin> set (st_activeUsers (getStatus (removeUser u (addUser d u (run evs new_scheduler)))))"
proof -
  define s where "s = run evs new_scheduler"
  define idle where "idle = idle_users evs new_scheduler []"
  have m: "timers_match s"
    unfolding s_def by (rule quiet_run_new(1) [OF quiet])
  have i: "set idle \<subseteq> set (activeUsers s)"
    unfolding s_def idle_def by (rule quiet_run_new(2) [OF quiet])
  have k: "fst ` set (scheduledChallenges s) = set (activeUsers s) - set idle"
    unfolding s_def idle_def by (rule quiet_run_new(3) [OF quiet])
  have m1: "timers_match (addUser d u s)"
    by (rule addUser_match [OF m])
  have m2: "timers_match (removeUser u (addUser d u s))"
    by (rule removeUser_match [OF m1])
  have 1: "length (timers_of s u) \<le> 1"
    by (simp add: timers_of_count [OF m])
  have 2: "timers_of s u = []" if "u \<notin> set (activeUsers s)"
    by (rule inactive_no_timers [OF m that])
  have 3: "length (timers_of s u) = 1" if "u \<in> set (activeUsers s) \<and> u \<notin> set idle"
    using that k by (simp add: timers_of_count [OF m])
  have 4: "u \<in> set (activeUsers s) \<and> timers_of s u = []" if "u \<in> set idle"
  proof -
    from that k have "u \<notin> fst ` set (scheduledChallenges s)"
      by blast
    with timers_of_count [OF m, of u] have "timers_of s u = []"
      by simp
    with that i show ?thesis
      by blast
  qed
  have 5: "addUser d' u (addUser d u s) = addUser d u s"
    by (rule addUser_twice)
  have 6: "length (timers_of (addUser d u s) u) = 1" if "u \<notin> set idle"
  proof (cases "u \<in> set (activeUsers s)")
    case True
    with that 3 show ?thesis
      by (simp add: addUser_def)
  next
    case False
    then have "u \<in> fst ` set (scheduledChallenges (addUser d u s))"
      by (simp add: addUser_def scheduleNextChallenge_fields dom_update)
    then show ?thesis
      by (simp add: timers_of_count [OF m1])
  qed
  have 7: "timers_of (removeUser u (addUser d u s)) u = []"
    by (rule inactive_no_timers [OF m2 removeUser_inactive])
  have 8: "u \<notin> set (st_activeUsers (getStatus (removeUser u (addUser d u s))))"
    by (simp add: getStatus_def removeUser_inactive)
  from 1 2 3 4 5 6 7 8 show ?thesis
    unfolding s_def idle_def by blast
qed

theorem firings_keep_one_timer_witness:
  "firings_complete sample_events new_scheduler \<and>
   run sample_events new_scheduler =
     \<lparr> activeUsers = [7, 9], scheduledChallenges = [(9, 3)], timers = [(3, 300, 9)],
       next_timer = 4, running = [] \<rparr> \<and>
   idle_users sample_events new_scheduler [] = [7] \<and>
   length (timers_of (run sample_events new_scheduler) 9) = 1 \<and>
   timers_of (run sample_events new_scheduler) 7 = [] \<and>
   timers_of (run sample_events new_scheduler) 8 = [] \<and>
   addUser 300 8 (addUser 200 8 (run sample_events new_scheduler)) =
     addUser 200 8 (run sample_events new_scheduler) \<and>
   length (timers_of (addUser 200 8 (run sample_events new_scheduler)) 8) = 1 \<and>
   timers_of (removeUser 8 (addUser 200 8 (run sample_events new_scheduler))) 8 = [] \<and>
   8 \<notin> set (st_activeUsers (getStatus (removeUser 8 (addUser 200 8 (run sample_events new_scheduler)))))"
proof -
  note c = sample_events_complete
  have a9: "9 \<in> set (activeUsers (run sample_events new_scheduler))"
    and a8: "8 \<notin> set (activeUsers (run sample_events new_scheduler))"
    by (simp_all add: sample_events_state)
  have i7: "7 \<in> set (idle_users sample_events new_scheduler [])"
    and i8: "8 \<notin> set (idle_users sample_events new_scheduler [])"
    and i9: "9 \<notin> set (idle_users sample_events new_scheduler [])"
    by (simp_all add: sample_events_idle)
  from firings_keep_one_timer [OF c, of 9] a9 i9
  have t9: "length (timers_of (run sample_events new_scheduler) 9) = 1"
    by blast
  from firings_keep_one_timer [OF c, of 7] i7
  have t7: "timers_of (run sample_events new_scheduler) 7 = []"
    by blast
  note t8 = firings_keep_one_timer [OF c, of 8 300 200]
  from t8 a8 have e8: "timers_of (run sample_events new_scheduler) 8 = []"
    by blast
  from t8 i8 have o8: "length (timers_of (addUser 200 8 (run sample_events new_scheduler)) 8) = 1"
    by blast
  from t8 have d8: "addUser 300 8 (addUser 200 8 (run sample_events new_scheduler)) =
     addUser 200 8 (run sample_events new_scheduler)"
    and r8: "timers_of (removeUser 8 (addUser 200 8 (run sample_events new_scheduler))) 8 = []"
    and g8: "8 \<notin> set (st_activeUsers (getStatus (removeUser 8 (addUser 200 8 (run sample_events new_scheduler)))))"
    by blast+
  show ?thesis
    by (intro conjI) (fact c sample_events_state sample_events_idle t9 t7 e8 d8 o8 r8 g8)+
qed

text \<open>Claim C7 as stated fails after \<open>stop()\<close>: the user stays active and has no
  pending timer.\<close>

theorem stop_leaves_active_user_without_timer:
  "7 \<in> set (activeUsers (run [AddUser 7 1000, Stop] new_scheduler)) \<and>
   length (timers_of (run [AddUser 7 1000, Stop] new_scheduler) 7) \<noteq> 1"
  by (simp add: run_def addUser_def scheduleNextChallenge_def setTimeout_def
      new_scheduler_def clearTimeout_def stop_def timers_of_def)


subsection \<open>Removal during a firing\<close>

text \<open>A cleared timer never fires.\<close>

lemma cleared_timer_cannot_fire: "fire t (clearTimeout t s) = clearTimeout t s"
proof -
  have "t \<notin> fst ` set (filter (\<lambda>x. fst x \<noteq> t) (timers s))"
    by auto
  then have "map_of (timers (clearTimeout t s)) t = None"
    by (simp add: clearTimeout_def map_of_eq_None_iff)
  then show ?thesis
    by (simp add: fire_def)
qed

text \<open>When the user is added again before the suspended \<open>sendChallenge\<close> resumes, the
  user ends with two pending timers.\<close>

lemma readd_during_firing_leaves_two_timers:
  "map fst (timers_of (run [AddUser 7 1000, Fire 0, RemoveUser 7, AddUser 7 1000,
       Resume 7 (Inr True) (Inr ()) (1 / 2)] new_scheduler) 7) = [1, 2]"
  by (simp add: run_def addUser_def scheduleNextChallenge_def setTimeout_def
      new_scheduler_def clearTimeout_def fire_def removeUser_def resume_def sendChallenge_def
      timers_of_def delay_half)

text \<open>
  Claim C8, evaluated. User 7 is added, the timer fires and \<open>sendChallenge\<close> is
  suspended at its await, \<open>removeUser(7)\<close> runs, and \<open>sendChallenge\<close> resumes: it arms a
  new timer although the user is no longer active. The removed user is left with a
  pending timer, where the claim requires none.
\<close>

theorem removeUser_during_firing_leaves_timer:
  "7 \<notin> set (activeUsers (run [AddUser 7 1000, Fire 0, RemoveUser 7,
       Resume 7 (Inr True) (Inr ()) (1 / 2)] new_scheduler)) \<and>
   timers_of (run [AddUser 7 1000, Fire 0, RemoveUser 7,
       Resume 7 (Inr True) (Inr ()) (1 / 2)] new_scheduler) 7 = [(1, 259200000, 7)] \<and>
   running (run [AddUser 7 1000, Fire 0, RemoveUser 7,
       Resume 7 (Inr True) (Inr ()) (1 / 2)] new_scheduler) = []"
  by (simp add: run_def addUser_def scheduleNextChallenge_def setTimeout_def
      new_scheduler_def clearTimeout_def fire_def removeUser_def resume_def sendChallenge_def
      timers_of_def delay_half)

end
